theory Spec2Isabelle
  imports Complex_Main "HOL-Library.Log_Nat"
begin

section \<open>JavaScript numbers\<close>

text \<open>
  The amounts of the finance model are TypeScript \<open>number\<close>s, that is IEEE 754 binary64
  values.  A finite value is kept as the rational it denotes; the two infinities and NaN are
  separate constructors.  The sign of zero is not tracked: \<open>===\<close>, \<open><\<close> and the
  arithmetic used here do not distinguish \<open>-0\<close> from \<open>+0\<close>.
\<close>

datatype number = Fin rat | PInf | NInf | NaN

text \<open>\<open>ilog2 x\<close> is the integer \<open>n\<close> with \<open>2^n \<le> |x| < 2^(n+1)\<close>, for \<open>x \<noteq> 0\<close>.\<close>

definition ilog2 :: "rat \<Rightarrow> int" where
  "ilog2 x = (if 1 \<le> \<bar>x\<bar> then bitlen \<lfloor>\<bar>x\<bar>\<rfloor> - 1 else - bitlen (\<lceil>1 / \<bar>x\<bar>\<rceil> - 1))"

text \<open>Rounding to the nearest integer, ties to the even one.\<close>

definition rne :: "rat \<Rightarrow> int" where
  "rne x = (let f = \<lfloor>x\<rfloor>; d = x - of_int f in
     if d < 1 / 2 then f else if 1 / 2 < d then f + 1 else if even f then f else f + 1)"

text \<open>
  The exponent of the last place of a binary64 value near \<open>x\<close>: 53 significant bits,
  and never below \<open>2^-1074\<close>, the spacing of the subnormal numbers.
\<close>

definition expo :: "rat \<Rightarrow> int" where
  "expo x = max (ilog2 x - 52) (- 1074)"

text \<open>Round to nearest, ties to even, with the exponent unbounded above.\<close>

definition rnd :: "rat \<Rightarrow> rat" where
  "rnd x = (if x = 0 then 0 else of_int (rne (x / 2 powi expo x)) * 2 powi expo x)"

text \<open>The result of an operation whose exact value is \<open>x\<close>: rounded, and infinite on overflow.\<close>

definition round_number :: "rat \<Rightarrow> number" where
  "round_number x = (let y = rnd x in
     if 2 ^ 1024 \<le> y then PInf else if y \<le> - (2 ^ 1024) then NInf else Fin y)"

text \<open>The rationals that are binary64 values.\<close>

definition binary64 :: "rat \<Rightarrow> bool" where
  "binary64 x \<longleftrightarrow>
     x = 0 \<or> (\<bar>x\<bar> < 2 ^ 1024 \<and> of_int \<lfloor>x / 2 powi expo x\<rfloor> = x / 2 powi expo x)"

fun is_number :: "number \<Rightarrow> bool" where
  "is_number (Fin x) = binary64 x"
| "is_number _ = True"

fun is_finite :: "number \<Rightarrow> bool" where
  "is_finite (Fin x) = True"
| "is_finite _ = False"

text \<open>The operators \<open>*\<close>, \<open>+\<close>, \<open>-\<close> (unary and binary), \<open><\<close>, \<open><=\<close> and \<open>===\<close> on numbers.\<close>

fun num_mul :: "number \<Rightarrow> number \<Rightarrow> number" where
  "num_mul (Fin a) (Fin b) = round_number (a * b)"
| "num_mul NaN _ = NaN"
| "num_mul _ NaN = NaN"
| "num_mul (Fin a) PInf = (if a = 0 then NaN else if 0 < a then PInf else NInf)"
| "num_mul (Fin a) NInf = (if a = 0 then NaN else if 0 < a then NInf else PInf)"
| "num_mul PInf (Fin b) = (if b = 0 then NaN else if 0 < b then PInf else NInf)"
| "num_mul NInf (Fin b) = (if b = 0 then NaN else if 0 < b then NInf else PInf)"
| "num_mul PInf PInf = PInf"
| "num_mul PInf NInf = NInf"
| "num_mul NInf PInf = NInf"
| "num_mul NInf NInf = PInf"

fun num_add :: "number \<Rightarrow> number \<Rightarrow> number" where
  "num_add (Fin a) (Fin b) = round_number (a + b)"
| "num_add NaN _ = NaN"
| "num_add _ NaN = NaN"
| "num_add PInf NInf = NaN"
| "num_add NInf PInf = NaN"
| "num_add PInf _ = PInf"
| "num_add NInf _ = NInf"
| "num_add (Fin a) PInf = PInf"
| "num_add (Fin a) NInf = NInf"

fun num_neg :: "number \<Rightarrow> number" where
  "num_neg (Fin a) = Fin (- a)"
| "num_neg PInf = NInf"
| "num_neg NInf = PInf"
| "num_neg NaN = NaN"

fun num_sub :: "number \<Rightarrow> number \<Rightarrow> number" where
  "num_sub (Fin a) (Fin b) = round_number (a - b)"
| "num_sub NaN _ = NaN"
| "num_sub _ NaN = NaN"
| "num_sub PInf PInf = NaN"
| "num_sub NInf NInf = NaN"
| "num_sub PInf _ = PInf"
| "num_sub NInf _ = NInf"
| "num_sub (Fin a) PInf = NInf"
| "num_sub (Fin a) NInf = PInf"

fun num_lt :: "number \<Rightarrow> number \<Rightarrow> bool" where
  "num_lt (Fin a) (Fin b) = (a < b)"
| "num_lt NaN _ = False"
| "num_lt _ NaN = False"
| "num_lt _ NInf = False"
| "num_lt PInf _ = False"
| "num_lt NInf _ = True"
| "num_lt (Fin a) PInf = True"

fun num_eq :: "number \<Rightarrow> number \<Rightarrow> bool" where
  "num_eq NaN _ = False"
| "num_eq _ NaN = False"
| "num_eq a b = (a = b)"

definition num_le :: "number \<Rightarrow> number \<Rightarrow> bool" where
  "num_le a b \<longleftrightarrow> num_lt a b \<or> num_eq a b"

text \<open>
  Two numbers agree within a relative tolerance: both finite, and their difference at most
  \<open>tol\<close> times the magnitude of the second.
\<close>

fun num_close :: "rat \<Rightarrow> number \<Rightarrow> number \<Rightarrow> bool" where
  "num_close tol (Fin a) (Fin b) = (\<bar>a - b\<bar> \<le> tol * \<bar>b\<bar>)"
| "num_close tol _ _ = False"


section \<open>Finance entities\<close>

datatype TransactionType =
    T_due_added
  | T_due_cleared
  | T_commission_earned
  | T_commission_available
  | T_withdrawal_requested
  | T_withdrawal_completed
  | T_withdrawal_failed
  | T_referral_reward

datatype TransactionStatus = TS_pending | TS_completed | TS_failed

datatype PaymentMethod = PM_upi | PM_card | PM_netbanking | PM_wallet | PM_commission

record Transaction =
  tx_id :: string
  tx_type :: TransactionType
  tx_status :: TransactionStatus
  tx_amount :: number
  tx_currency :: string
  tx_description :: string
  tx_eventId :: "string option"
  tx_eventTitle :: "string option"
  tx_paymentMethod :: "PaymentMethod option"
  tx_gatewayFee :: "number option"
  tx_gst :: "number option"
  tx_netAmount :: "number option"
  tx_referenceId :: "string option"
  tx_createdAt :: string
  tx_completedAt :: "string option"

datatype DueStatus = Due_pending | Due_cleared

datatype ClearedVia = Via_payment | Via_commission

record DueRecord =
  due_id :: string
  due_eventId :: string
  due_eventTitle :: string
  due_amount :: number
  due_currency :: string
  due_status :: DueStatus
  due_clearedVia :: "ClearedVia option"
  due_createdAt :: string
  due_clearedAt :: "string option"

datatype CommissionStatus = Com_pending | Com_available | Com_withdrawn

record CommissionRecord =
  com_id :: string
  com_eventId :: string
  com_eventTitle :: string
  com_totalGenerated :: number
  com_commissionRate :: number
  com_grossAmount :: number
  com_status :: CommissionStatus
  com_participantsDuesCleared :: number
  com_totalParticipants :: number
  com_createdAt :: string
  com_availableAt :: "string option"

record BankDetails =
  accountHolderName :: string
  accountNumber :: string
  ifscCode :: string
  bankName :: string
  upiId :: "string option"

datatype WithdrawalStatus = W_pending | W_processing | W_completed | W_failed

record WithdrawalRecord =
  wd_id :: string
  wd_amount :: number
  wd_currency :: string
  wd_gatewayFee :: number
  wd_gst :: number
  wd_netAmount :: number
  wd_status :: WithdrawalStatus
  wd_bankDetails :: BankDetails
  wd_requestedAt :: string
  wd_processedAt :: "string option"
  wd_failureReason :: "string option"

record FinanceSummary =
  totalDues :: number
  fs_pendingCommission :: number
  availableCommission :: number
  minWithdrawalAmount :: number
  gatewayFeePercentage :: number
  gstPercentage :: number
  canWithdraw :: bool
  fs_currency :: string

text \<open>The constants.  A decimal literal denotes the binary64 value nearest to it.\<close>

definition DUE_AMOUNT :: number where
  "DUE_AMOUNT = Fin 25"

definition COMMISSION_RATE :: number where
  "COMMISSION_RATE = round_number (8 / 10)"

definition MIN_WITHDRAWAL_AMOUNT :: number where
  "MIN_WITHDRAWAL_AMOUNT = Fin 1000"

definition GATEWAY_FEE_PERCENTAGE :: number where
  "GATEWAY_FEE_PERCENTAGE = round_number (2 / 100)"

definition GST_PERCENTAGE :: number where
  "GST_PERCENTAGE = round_number (18 / 100)"

record Breakdown =
  gatewayFee :: number
  gst :: number
  netAmount :: number

definition calculateWithdrawalBreakdown :: "number \<Rightarrow> Breakdown" where
  "calculateWithdrawalBreakdown grossAmount =
     (let fee = num_mul grossAmount GATEWAY_FEE_PERCENTAGE;
          tax = num_mul fee GST_PERCENTAGE;
          net = num_sub (num_sub grossAmount fee) tax
      in \<lparr>gatewayFee = fee, gst = tax, netAmount = net\<rparr>)"

text \<open>The expression \<open>gatewayFee + gst + netAmount\<close>, evaluated from the left.\<close>

definition breakdown_total :: "Breakdown \<Rightarrow> number" where
  "breakdown_total b = num_add (num_add (gatewayFee b) (gst b)) (netAmount b)"


section \<open>The wallet screen's withdraw button\<close>

record Wallet =
  availableBalance :: number
  pendingCommission :: number
  wallet_dues :: number
  totalEarned :: number
  minWithdrawal :: number

definition wallet :: Wallet where
  "wallet = \<lparr>availableBalance = Fin 3500, pendingCommission = Fin 1250, wallet_dues = Fin 0,
              totalEarned = Fin 15000, minWithdrawal = Fin 1000\<rparr>"

datatype wallet_effect = ImpactMedium | OnWithdraw

text \<open>The \<open>disabled\<close> property of the button, and what a press of it does.\<close>

definition withdrawDisabled :: "Wallet \<Rightarrow> bool" where
  "withdrawDisabled w \<longleftrightarrow> num_lt (availableBalance w) (minWithdrawal w)"

definition pressWithdraw :: "Wallet \<Rightarrow> wallet_effect list" where
  "pressWithdraw w = (if withdrawDisabled w then [] else [ImpactMedium, OnWithdraw])"


section \<open>The OTP screen\<close>

definition OTP_LENGTH :: nat where
  "OTP_LENGTH = 6"

record OTPState =
  otp :: "string list"
  activeIndex :: nat
  otp_isLoading :: bool
  otp_error :: string
  resendTimer :: nat

datatype otp_effect = NotifySuccess | NotifyError | Shake | OnVerify string

text \<open>A pending \<open>setTimeout\<close>: the delay in milliseconds and the OTP its callback closes over.\<close>

datatype otp_timer = VerifyTimer nat string

text \<open>\<open>handleVerify\<close> sets the loading flag and starts the timer.\<close>

definition handleVerify :: "string \<Rightarrow> OTPState \<Rightarrow> OTPState \<times> otp_timer" where
  "handleVerify otpValue st = (st\<lparr>otp_isLoading := True\<rparr>, VerifyTimer 1500 otpValue)"

text \<open>The timer's callback, run on the state at the time it fires.\<close>

fun fireVerify :: "otp_timer \<Rightarrow> OTPState \<Rightarrow> OTPState \<times> otp_effect list" where
  "fireVerify (VerifyTimer ms otpValue) st =
     (let st1 = st\<lparr>otp_isLoading := False\<rparr> in
      if otpValue = ''000000''
      then (st1\<lparr>otp_error := ''Invalid OTP. Please try again.''\<rparr>, [Shake, NotifyError])
      else (st1, [NotifySuccess, OnVerify otpValue]))"

fun timer_delay :: "otp_timer \<Rightarrow> nat" where
  "timer_delay (VerifyTimer ms otpValue) = ms"

text \<open>
  The Verify button.  Its \<open>disabled\<close> property holds unless the six boxes together
  hold six characters, and the button component also ignores a press while \<open>loading\<close>.
\<close>

definition verifyDisabled :: "OTPState \<Rightarrow> bool" where
  "verifyDisabled st \<longleftrightarrow> length (concat (otp st)) \<noteq> OTP_LENGTH \<or> otp_isLoading st"

definition pressVerify :: "OTPState \<Rightarrow> (OTPState \<times> otp_timer) option" where
  "pressVerify st = (if verifyDisabled st then None else Some (handleVerify (concat (otp st)) st))"


section \<open>The finance store\<close>

text \<open>
  A JavaScript array is an object.  A variable or a field holds a reference to it, and
  every holder of the same reference sees a change made to the array in place.  The heap
  gives the elements of the array that a reference denotes.
\<close>

type_synonym ref = nat

datatype element =
    E_transaction Transaction
  | E_due DueRecord
  | E_commission CommissionRecord
  | E_withdrawal WithdrawalRecord

type_synonym heap = "ref \<rightharpoonup> element list"

text \<open>\<open>xs.push(x)\<close>: the array at \<open>r\<close> gets one more element, in place.\<close>

definition array_push :: "ref \<Rightarrow> element \<Rightarrow> heap \<Rightarrow> heap" where
  "array_push r x h = (case h r of None \<Rightarrow> h | Some xs \<Rightarrow> h(r \<mapsto> xs @ [x]))"

text \<open>The data fields of the store's state.  The four array fields hold references.\<close>

record FinanceState =
  summary :: "FinanceSummary option"
  transactions :: ref
  dues :: ref
  commissions :: ref
  withdrawals :: ref
  isLoading :: bool
  error :: "string option"

text \<open>
  The argument of the store's \<open>set\<close>: an object holding some of the state's keys.  A key
  that is absent is \<open>None\<close>.
\<close>

record FinancePatch =
  p_summary :: "FinanceSummary option option"
  p_transactions :: "ref option"
  p_dues :: "ref option"
  p_commissions :: "ref option"
  p_withdrawals :: "ref option"
  p_isLoading :: "bool option"
  p_error :: "string option option"

definition no_keys :: FinancePatch where
  "no_keys = \<lparr>p_summary = None, p_transactions = None, p_dues = None, p_commissions = None,
               p_withdrawals = None, p_isLoading = None, p_error = None\<rparr>"

text \<open>
  \<open>set\<close> merges the keys of its argument into the state and keeps the others.  It
  copies references; it neither copies nor changes an array.
\<close>

definition set_state :: "FinancePatch \<Rightarrow> FinanceState \<Rightarrow> FinanceState" where
  "set_state p st =
     \<lparr>summary = (case p_summary p of None \<Rightarrow> summary st | Some v \<Rightarrow> v),
      transactions = (case p_transactions p of None \<Rightarrow> transactions st | Some v \<Rightarrow> v),
      dues = (case p_dues p of None \<Rightarrow> dues st | Some v \<Rightarrow> v),
      commissions = (case p_commissions p of None \<Rightarrow> commissions st | Some v \<Rightarrow> v),
      withdrawals = (case p_withdrawals p of None \<Rightarrow> withdrawals st | Some v \<Rightarrow> v),
      isLoading = (case p_isLoading p of None \<Rightarrow> isLoading st | Some v \<Rightarrow> v),
      error = (case p_error p of None \<Rightarrow> error st | Some v \<Rightarrow> v)\<rparr>"

text \<open>
  The module's constant \<open>initialState\<close>.  Its four array literals are evaluated once,
  when the module is loaded: they make four empty arrays, here at the references 0 to 3,
  and \<open>initialState\<close> holds these references from then on.  \<open>heap_loaded\<close> is the
  heap just after the module is loaded.
\<close>

definition initialState :: FinanceState where
  "initialState = \<lparr>summary = None, transactions = 0, dues = 1, commissions = 2,
                    withdrawals = 3, isLoading = False, error = None\<rparr>"

definition heap_loaded :: heap where
  "heap_loaded = [0 \<mapsto> [], 1 \<mapsto> [], 2 \<mapsto> [], 3 \<mapsto> []]"

definition all_keys :: "FinanceState \<Rightarrow> FinancePatch" where
  "all_keys st = \<lparr>p_summary = Some (summary st), p_transactions = Some (transactions st),
                  p_dues = Some (dues st), p_commissions = Some (commissions st),
                  p_withdrawals = Some (withdrawals st), p_isLoading = Some (isLoading st),
                  p_error = Some (error st)\<rparr>"

text \<open>
  The state the store is created with, \<open>{...initialState, setSummary: ..., ...}\<close>: the
  spread copies the seven fields of \<open>initialState\<close>, so the new state holds the same
  four references.
\<close>

definition createdState :: FinanceState where
  "createdState = initialState"

definition setSummary :: "FinanceSummary \<Rightarrow> FinanceState \<Rightarrow> FinanceState" where
  "setSummary s = set_state (no_keys\<lparr>p_summary := Some (Some s)\<rparr>)"

definition setTransactions :: "ref \<Rightarrow> FinanceState \<Rightarrow> FinanceState" where
  "setTransactions ts = set_state (no_keys\<lparr>p_transactions := Some ts\<rparr>)"

definition setDues :: "ref \<Rightarrow> FinanceState \<Rightarrow> FinanceState" where
  "setDues ds = set_state (no_keys\<lparr>p_dues := Some ds\<rparr>)"

definition setCommissions :: "ref \<Rightarrow> FinanceState \<Rightarrow> FinanceState" where
  "setCommissions cs = set_state (no_keys\<lparr>p_commissions := Some cs\<rparr>)"

definition setWithdrawals :: "ref \<Rightarrow> FinanceState \<Rightarrow> FinanceState" where
  "setWithdrawals ws = set_state (no_keys\<lparr>p_withdrawals := Some ws\<rparr>)"

definition setLoading :: "bool \<Rightarrow> FinanceState \<Rightarrow> FinanceState" where
  "setLoading l = set_state (no_keys\<lparr>p_isLoading := Some l\<rparr>)"

definition setError :: "string option \<Rightarrow> FinanceState \<Rightarrow> FinanceState" where
  "setError e = set_state (no_keys\<lparr>p_error := Some e\<rparr>)"

text \<open>\<open>reset\<close> is \<open>set(initialState)\<close>: it hands the store the references that
  \<open>initialState\<close> holds.\<close>

definition reset :: "FinanceState \<Rightarrow> FinanceState" where
  "reset = set_state (all_keys initialState)"


section \<open>Clearing a due\<close>

text \<open>
  Modelled from the spec: the operation that marks a due as cleared and releases the
  commission of its event.  The repository declares \<open>DueRecord\<close> and
  \<open>CommissionRecord\<close> and has no code that changes them.  The specification gives the
  operation: its input is a due record's id and how it is cleared; the due becomes
  \<open>cleared\<close>; the commission record of the due's event counts one more cleared due, and
  moves from \<open>pending\<close> to \<open>available\<close> when \<open>participantsDuesCleared\<close> equals
  \<open>totalParticipants\<close>; clearing a due that is already cleared changes nothing.
\<close>

definition creditCommission :: "string \<Rightarrow> string \<Rightarrow> CommissionRecord \<Rightarrow> CommissionRecord" where
  "creditCommission now ev c =
     (if com_eventId c \<noteq> ev then c
      else let n = num_add (com_participantsDuesCleared c) (Fin 1);
               c1 = c\<lparr>com_participantsDuesCleared := n\<rparr>
           in if com_status c1 = Com_pending \<and> num_eq n (com_totalParticipants c1)
              then c1\<lparr>com_status := Com_available, com_availableAt := Some now\<rparr>
              else c1)"

text \<open>
  Modelled from the spec: the update of the due record itself, which is not in the
  repository.  The due becomes \<open>cleared\<close> and records how and when.
\<close>

definition markCleared :: "string \<Rightarrow> ClearedVia \<Rightarrow> string \<Rightarrow> DueRecord \<Rightarrow> DueRecord" where
  "markCleared now via dueId d =
     (if due_id d = dueId
      then d\<lparr>due_status := Due_cleared, due_clearedVia := Some via, due_clearedAt := Some now\<rparr>
      else d)"

text \<open>
  Modelled from the spec: the request to mark a due as cleared, which is not in the
  repository.  Its input is the due record's id and the way it is cleared.  A due that is
  unknown or already cleared leaves the ledger as it is; otherwise the due is marked and
  the commission records of its event are credited.
\<close>

definition clearDue ::
  "string \<Rightarrow> string \<Rightarrow> ClearedVia \<Rightarrow> DueRecord list \<times> CommissionRecord list
     \<Rightarrow> DueRecord list \<times> CommissionRecord list" where
  "clearDue now dueId via st =
     (case find (\<lambda>d. due_id d = dueId) (fst st) of
        None \<Rightarrow> st
      | Some d \<Rightarrow>
          if due_status d = Due_cleared then st
          else (map (markCleared now via dueId) (fst st),
                map (creditCommission now (due_eventId d)) (snd st)))"


section \<open>The breakdown of a finite amount\<close>

text \<open>
  The values of the two rates as rationals, and the four roundings that
  \<open>calculateWithdrawalBreakdown\<close> performs on a finite amount \<open>g\<close>, before the check for
  overflow.
\<close>

definition feeRate :: rat where
  "feeRate = 5764607523034235 / 2 ^ 58"

definition gstRate :: rat where
  "gstRate = 6485183463413514 / 2 ^ 55"

definition fee_of :: "rat \<Rightarrow> rat" where
  "fee_of g = rnd (g * feeRate)"

definition tax_of :: "rat \<Rightarrow> rat" where
  "tax_of g = rnd (fee_of g * gstRate)"

definition rest_of :: "rat \<Rightarrow> rat" where
  "rest_of g = rnd (g - fee_of g)"

definition net_of :: "rat \<Rightarrow> rat" where
  "net_of g = rnd (rest_of g - tax_of g)"

text \<open>The two further roundings of \<open>gatewayFee + gst + netAmount\<close>.\<close>

definition part_of :: "rat \<Rightarrow> rat" where
  "part_of g = rnd (fee_of g + tax_of g)"

definition sum_of :: "rat \<Rightarrow> rat" where
  "sum_of g = rnd (part_of g + net_of g)"

text \<open>
  Rounding to the nearest multiple of \<open>2^e\<close>, ties to the even multiple; and rounding in
  a floating-point format with 53 significant bits whose least exponent is \<open>e0\<close>.
  The binary64 format is the one with \<open>e0 = -1074\<close>.
\<close>

definition rgrid :: "int \<Rightarrow> rat \<Rightarrow> rat" where
  "rgrid e x = of_int (rne (x / 2 powi e)) * 2 powi e"

definition rnd_from :: "int \<Rightarrow> rat \<Rightarrow> rat" where
  "rnd_from e0 x = rgrid (max (ilog2 x - 52) e0) x"

text \<open>
  The four roundings of the breakdown in the format with least exponent \<open>e0\<close>.  In
  binary64 the amount \<open>g * 2^e\<close> has the breakdown that \<open>g\<close> has in the format with
  least exponent \<open>-1074 - e\<close>, multiplied by \<open>2^e\<close>.
\<close>

definition fee_from :: "int \<Rightarrow> rat \<Rightarrow> rat" where
  "fee_from e0 g = rnd_from e0 (g * feeRate)"

definition tax_from :: "int \<Rightarrow> rat \<Rightarrow> rat" where
  "tax_from e0 g = rnd_from e0 (fee_from e0 g * gstRate)"

definition rest_from :: "int \<Rightarrow> rat \<Rightarrow> rat" where
  "rest_from e0 g = rnd_from e0 (g - fee_from e0 g)"

definition net_from :: "int \<Rightarrow> rat \<Rightarrow> rat" where
  "net_from e0 g = rnd_from e0 (rest_from e0 g - tax_from e0 g)"

text \<open>The largest finite number, \<open>Number.MAX_VALUE\<close>.\<close>

definition max_value :: rat where
  "max_value = (2 ^ 53 - 1) * 2 ^ 971"

definition neg_breakdown :: "Breakdown \<Rightarrow> Breakdown" where
  "neg_breakdown b =
     \<lparr>gatewayFee = num_neg (gatewayFee b), gst = num_neg (gst b),
      netAmount = num_neg (netAmount b)\<rparr>"


section \<open>Example data\<close>

definition otp_typed :: OTPState where
  "otp_typed = \<lparr>otp = [''1'', ''2'', ''3'', ''4'', ''5'', ''6''], activeIndex = 5,
                 otp_isLoading = False, otp_error = [], resendTimer = 30\<rparr>"

definition due_third :: DueRecord where
  "due_third = \<lparr>due_id = ''due-3'', due_eventId = ''event-1'', due_eventTitle = ''Trek'',
                 due_amount = Fin 25, due_currency = ''INR'', due_status = Due_pending,
                 due_clearedVia = None, due_createdAt = ''2024-01-01'', due_clearedAt = None\<rparr>"

definition com_trek :: CommissionRecord where
  "com_trek = \<lparr>com_id = ''com-1'', com_eventId = ''event-1'', com_eventTitle = ''Trek'',
                com_totalGenerated = Fin 75, com_commissionRate = COMMISSION_RATE,
                com_grossAmount = Fin 60, com_status = Com_pending,
                com_participantsDuesCleared = Fin 2, com_totalParticipants = Fin 3,
                com_createdAt = ''2024-01-01'', com_availableAt = None\<rparr>"

definition com_other :: CommissionRecord where
  "com_other = \<lparr>com_id = ''com-2'', com_eventId = ''event-2'', com_eventTitle = ''Quiz'',
                 com_totalGenerated = Fin 50, com_commissionRate = COMMISSION_RATE,
                 com_grossAmount = Fin 40, com_status = Com_pending,
                 com_participantsDuesCleared = Fin 1, com_totalParticipants = Fin 2,
                 com_createdAt = ''2024-01-02'', com_availableAt = None\<rparr>"

section \<open>Properties of rounding\<close>

text \<open>
  The facts about binary64 rounding that the breakdown needs: \<open>ilog2\<close> finds the binade;
  \<open>rne\<close> is the nearest integer; \<open>rnd\<close> is within half a unit in the last place,
  hence within a relative \<open>2^-53\<close> on normal numbers; it keeps binary64 values, is
  symmetric, never steps over a binary64 value (\<open>rnd_le\<close>, \<open>rnd_ge\<close>) and is
  as near as any binary64 value (\<open>rnd_nearest\<close>); and a sum or
  difference of two binary64 values is rounded with a relative error of at most \<open>2^-53\<close>
  even when it is subnormal, since it is then exact.
\<close>

lemma two_powi_nat: "0 \<le> n \<Longrightarrow> (2::rat) powi n = 2 ^ nat n"
  by (simp add: power_int_nonneg_exp)

lemma ilog2_ge1:
  assumes "1 \<le> \<bar>x\<bar>"
  shows "2 powi ilog2 x \<le> \<bar>x\<bar>" and "\<bar>x\<bar> < 2 powi (ilog2 x + 1)"
proof -
  define n where "n = \<lfloor>\<bar>x\<bar>\<rfloor>"
  have n1: "1 \<le> n" using assms by (simp add: n_def le_floor_iff)
  then have n0: "0 < n" by simp
  from bitlen_bounds [OF n0] have lo: "2 ^ nat (bitlen n - 1) \<le> n" and hi: "n < 2 ^ nat (bitlen n)"
    by simp_all
  have b1: "1 \<le> bitlen n" using n0 by (simp add: bitlen_alt_def)
  have il: "ilog2 x = bitlen n - 1" using assms by (simp add: ilog2_def n_def)
  have "(2::rat) powi ilog2 x = of_int (2 ^ nat (bitlen n - 1))"
    using b1 by (simp add: il two_powi_nat)
  also have "\<dots> \<le> of_int n" using lo by (simp only: of_int_le_iff)
  also have "\<dots> \<le> \<bar>x\<bar>" by (simp add: n_def)
  finally show "2 powi ilog2 x \<le> \<bar>x\<bar>" .
  have "\<bar>x\<bar> < of_int (n + 1)" using floor_correct [of "\<bar>x\<bar>"] by (simp add: n_def)
  also have "\<dots> \<le> of_int (2 ^ nat (bitlen n))" using hi by (simp only: of_int_le_iff)
  also have "\<dots> = (2::rat) powi (ilog2 x + 1)" using b1 by (simp add: il two_powi_nat)
  finally show "\<bar>x\<bar> < 2 powi (ilog2 x + 1)" .
qed

lemma ilog2_lt1:
  assumes "x \<noteq> 0" "\<bar>x\<bar> < 1"
  shows "2 powi ilog2 x \<le> \<bar>x\<bar>" and "\<bar>x\<bar> < 2 powi (ilog2 x + 1)"
proof -
  define y where "y = 1 / \<bar>x\<bar>"
  define n where "n = \<lceil>y\<rceil> - 1"
  have xpos: "0 < \<bar>x\<bar>" using assms by simp
  have y1: "1 < y" using assms xpos by (simp add: y_def)
  have n1: "1 \<le> n" using y1 by (simp add: n_def less_ceiling_iff)
  then have n0: "0 < n" by simp
  have ny: "of_int n < y" by (simp add: n_def) linarith
  have yn: "y \<le> of_int (n + 1)" by (simp add: n_def)
  from bitlen_bounds [OF n0] have lo: "2 ^ nat (bitlen n - 1) \<le> n" and hi: "n < 2 ^ nat (bitlen n)"
    by simp_all
  have b1: "1 \<le> bitlen n" using n0 by (simp add: bitlen_alt_def)
  have il: "ilog2 x = - bitlen n" using assms by (simp add: ilog2_def n_def y_def)
  have "y \<le> of_int (2 ^ nat (bitlen n))"
    using yn hi by (meson add1_zle_eq of_int_le_iff order_trans)
  then have yhi: "y \<le> 2 ^ nat (bitlen n)" by simp
  have "(2::rat) ^ nat (bitlen n - 1) = of_int (2 ^ nat (bitlen n - 1))" by simp
  also have "\<dots> \<le> of_int n" using lo by (simp only: of_int_le_iff)
  also note ny
  finally have ylo: "2 ^ nat (bitlen n - 1) < y" .
  have "(2::rat) powi ilog2 x = 1 / 2 ^ nat (bitlen n)"
    using b1 by (simp add: il power_int_minus_divide two_powi_nat)
  also have "\<dots> \<le> \<bar>x\<bar>"
    using yhi xpos by (simp add: y_def field_simps)
  finally show "2 powi ilog2 x \<le> \<bar>x\<bar>" .
  have "(2::rat) powi (ilog2 x + 1) = 1 / 2 ^ nat (bitlen n - 1)"
  proof -
    have "ilog2 x + 1 = - (bitlen n - 1)" by (simp add: il)
    then show ?thesis using b1 by (simp only: power_int_minus_divide) (simp add: two_powi_nat)
  qed
  moreover have "\<bar>x\<bar> < 1 / 2 ^ nat (bitlen n - 1)"
    using ylo xpos by (simp add: y_def field_simps)
  ultimately show "\<bar>x\<bar> < 2 powi (ilog2 x + 1)" by simp
qed

lemma ilog2_bounds:
  assumes "x \<noteq> 0"
  shows "2 powi ilog2 x \<le> \<bar>x\<bar>" and "\<bar>x\<bar> < 2 powi (ilog2 x + 1)"
  using assms ilog2_ge1 [of x] ilog2_lt1 [of x] by (cases "1 \<le> \<bar>x\<bar>"; simp)+

lemma ilog2_unique:
  assumes "2 powi n \<le> \<bar>x\<bar>" "\<bar>x\<bar> < 2 powi (n + 1)"
  shows "ilog2 x = n"
proof -
  have "(0::rat) < 2 powi n" by simp
  also note assms(1)
  finally have x0: "x \<noteq> 0" by auto
  note b = ilog2_bounds [OF x0]
  have "\<not> ilog2 x < n"
  proof
    assume "ilog2 x < n"
    then have "(2::rat) powi (ilog2 x + 1) \<le> 2 powi n"
      by (intro power_int_increasing) simp_all
    with b(2) assms(1) show False by simp
  qed
  moreover have "\<not> n < ilog2 x"
  proof
    assume "n < ilog2 x"
    then have "(2::rat) powi (n + 1) \<le> 2 powi ilog2 x"
      by (intro power_int_increasing) simp_all
    with b(1) assms(2) show False by simp
  qed
  ultimately show ?thesis by simp
qed

lemma ilog2_minus: "ilog2 (- x) = ilog2 x"
  by (simp add: ilog2_def)

lemma ilog2_le: 
  assumes "x \<noteq> 0" "\<bar>x\<bar> < 2 powi n" shows "ilog2 x < n"
proof (rule ccontr)
  assume "\<not> ilog2 x < n"
  then have "(2::rat) powi n \<le> 2 powi ilog2 x" by (intro power_int_increasing) simp_all
  with ilog2_bounds(1) [OF assms(1)] assms(2) show False by simp
qed

lemma ilog2_ge:
  assumes "2 powi n \<le> \<bar>x\<bar>" shows "n \<le> ilog2 x"
proof (rule ccontr)
  have "(0::rat) < 2 powi n" by simp
  also note assms(1)
  finally have x0: "x \<noteq> 0" by auto
  assume "\<not> n \<le> ilog2 x"
  then have "(2::rat) powi (ilog2 x + 1) \<le> 2 powi n" by (intro power_int_increasing) simp_all
  with ilog2_bounds(2) [OF x0] assms show False by simp
qed

lemma two_powi_add: "(2::rat) powi (a + b) = 2 powi a * 2 powi b"
  by (simp add: power_int_add)

lemma two_powi_diff: "(2::rat) powi (a - b) = 2 powi a / 2 powi b"
  by (simp add: power_int_diff)

lemma rne_int [simp]: "rne (of_int k) = k"
  by (simp add: rne_def)

lemma rne_cases: "rne x = \<lfloor>x\<rfloor> \<or> rne x = \<lfloor>x\<rfloor> + 1"
  by (simp add: rne_def Let_def)

lemma rne_error: "\<bar>of_int (rne x) - x\<bar> \<le> 1 / 2"
proof -
  have "of_int \<lfloor>x\<rfloor> \<le> x" "x < of_int \<lfloor>x\<rfloor> + 1" using floor_correct [of x] by simp_all
  then show ?thesis by (auto simp add: rne_def Let_def abs_le_iff)
qed

lemma rne_le: "x \<le> of_int k \<Longrightarrow> rne x \<le> k"
proof -
  assume a: "x \<le> of_int k"
  have fl: "of_int \<lfloor>x\<rfloor> \<le> x" by simp
  show ?thesis
  proof (cases "x = of_int \<lfloor>x\<rfloor>")
    case True
    then have "rne x = \<lfloor>x\<rfloor>" by (metis rne_int)
    moreover have "\<lfloor>x\<rfloor> \<le> k" using a by (simp add: floor_le_iff) 
    ultimately show ?thesis by simp
  next
    case False
    from fl have "of_int \<lfloor>x\<rfloor> < x \<or> of_int \<lfloor>x\<rfloor> = x" by (rule le_imp_less_or_eq)
    with False have "of_int \<lfloor>x\<rfloor> < x" by metis
    then have "of_int \<lfloor>x\<rfloor> < (of_int k :: rat)" using a by simp
    then have "\<lfloor>x\<rfloor> < k" by (simp only: of_int_less_iff)
    then show ?thesis using rne_cases [of x] by auto
  qed
qed

lemma rne_ge: "of_int k \<le> x \<Longrightarrow> k \<le> rne x"
proof -
  assume "of_int k \<le> x"
  then have "k \<le> \<lfloor>x\<rfloor>" by (simp add: le_floor_iff)
  then show ?thesis using rne_cases [of x] by auto
qed

lemma rne_nearest: "\<bar>of_int (rne x) - x\<bar> \<le> \<bar>of_int k - x\<bar>"
proof -
  have fl: "of_int \<lfloor>x\<rfloor> \<le> x" "x < of_int \<lfloor>x\<rfloor> + 1"
    using floor_correct [of x] by simp_all
  show ?thesis
  proof (cases "k \<le> \<lfloor>x\<rfloor>")
    case True
    then have "(of_int k :: rat) \<le> of_int \<lfloor>x\<rfloor>" by (simp only: of_int_le_iff)
    with fl show ?thesis by (auto simp add: rne_def Let_def)
  next
    case False
    then have "\<lfloor>x\<rfloor> + 1 \<le> k" by simp
    then have "(of_int (\<lfloor>x\<rfloor> + 1) :: rat) \<le> of_int k" by (simp only: of_int_le_iff)
    then have "(of_int \<lfloor>x\<rfloor> :: rat) + 1 \<le> of_int k" by simp
    with fl show ?thesis by (auto simp add: rne_def Let_def)
  qed
qed

lemma rne_minus: "rne (- x) = - rne x"
proof (cases "x = of_int \<lfloor>x\<rfloor>")
  case True
  then obtain k where "x = of_int k" ..
  then have "- x = of_int (- k)" by simp
  then show ?thesis using \<open>x = of_int k\<close> by (metis rne_int)
next
  case False
  have nint: "x \<notin> \<int>"
  proof
    assume "x \<in> \<int>"
    then have "of_int \<lfloor>x\<rfloor> = x" by (rule of_int_floor)
    with False show False by simp
  qed
  have fm: "\<lfloor>- x\<rfloor> = - \<lfloor>x\<rfloor> - 1"
    unfolding floor_minus ceiling_altdef using False by (simp only: if_False)
  have d0: "x - of_int \<lfloor>x\<rfloor> \<noteq> 0" using False by simp
  show ?thesis
    unfolding rne_def Let_def fm using d0 by (auto simp add: field_simps)
qed

lemma rnd_alt: "rnd x = of_int (rne (x / 2 powi expo x)) * 2 powi expo x"
  by (simp add: rnd_def rne_def)

lemma expo_minus: "expo (- x) = expo x"
  by (simp add: expo_def ilog2_minus)

lemma rnd_minus: "rnd (- x) = - rnd x"
  by (simp add: rnd_alt expo_minus rne_minus)

lemma expo_ge: "- 1074 \<le> expo x"
  by (simp add: expo_def)

lemma rnd_error: "\<bar>rnd x - x\<bar> \<le> 2 powi expo x / 2"
proof -
  define s :: rat where "s = 2 powi expo x"
  have s0: "0 < s" by (simp add: s_def)
  have "rnd x - x = (of_int (rne (x / s)) - x / s) * s"
    using s0 by (simp add: rnd_alt s_def left_diff_distrib)
  then have "\<bar>rnd x - x\<bar> = \<bar>of_int (rne (x / s)) - x / s\<bar> * s"
    using s0 by (simp add: abs_mult)
  also have "\<dots> \<le> 1 / 2 * s"
    using rne_error [of "x / s"] s0 by (intro mult_right_mono) simp_all
  finally show ?thesis by (simp add: s_def)
qed

lemma rnd_rel_error:
  assumes "2 powi (- 1022) \<le> \<bar>x\<bar>"
  shows "\<bar>rnd x - x\<bar> \<le> \<bar>x\<bar> / 2 ^ 53"
proof -
  have il: "- 1022 \<le> ilog2 x" using assms by (rule ilog2_ge)
  then have ex: "expo x = ilog2 x - 53 + 1" by (simp add: expo_def)
  have "(0::rat) < 2 powi (- 1022)" by simp
  also note assms
  finally have x0: "x \<noteq> 0" by auto
  have "(2::rat) powi expo x / 2 = 2 powi (ilog2 x - 53)"
    using two_powi_add [of "ilog2 x - 53" 1] by (simp add: ex)
  also have "\<dots> = 2 powi ilog2 x / 2 ^ 53"
    by (simp add: two_powi_diff)
  also have "\<dots> \<le> \<bar>x\<bar> / 2 ^ 53"
    using ilog2_bounds(1) [OF x0] by (simp add: divide_right_mono)
  finally show ?thesis using rnd_error [of x] by simp
qed

lemma two_powi_pos [simp]: "(0::rat) < 2 powi n"
  by simp

lemma two_powi_of_int: "0 \<le> n \<Longrightarrow> (2::rat) powi n = of_int (2 ^ nat n)"
  by (simp add: power_int_nonneg_exp)

lemma grid_coarser:
  assumes "e \<le> e'"
  shows "\<exists>j. of_int k * (2::rat) powi e' = of_int j * 2 powi e"
proof -
  have "(2::rat) powi e' = 2 powi (e' - e) * 2 powi e"
    using two_powi_add [of "e' - e" e] by simp
  also have "(2::rat) powi (e' - e) = of_int (2 ^ nat (e' - e))"
    using assms by (simp add: two_powi_of_int)
  finally have "of_int k * (2::rat) powi e' = of_int (k * 2 ^ nat (e' - e)) * 2 powi e"
    by simp
  then show ?thesis ..
qed

lemma grid_div: "x = y * 2 powi e \<Longrightarrow> x / 2 powi e = (y::rat)"
  by simp

lemma is_int_iff: "of_int \<lfloor>y\<rfloor> = y \<longleftrightarrow> (\<exists>k. y = (of_int k :: rat))"
  by (metis floor_of_int)

lemma binary64_iff:
  "binary64 x \<longleftrightarrow> x = 0 \<or> (\<bar>x\<bar> < 2 ^ 1024 \<and> (\<exists>k. x / 2 powi expo x = of_int k))"
  unfolding binary64_def is_int_iff ..

lemma ilog2_zero [simp]: "ilog2 0 = 0"
  by (simp add: ilog2_def bitlen_eq_zero_iff)

lemma binary64_zero [simp]: "binary64 0"
  by (simp add: binary64_def)

lemma binary64_bound: "binary64 x \<Longrightarrow> \<bar>x\<bar> < 2 ^ 1024"
  by (auto simp add: binary64_def)

lemma binary64D:
  assumes "binary64 x"
  shows "\<exists>k. x = of_int k * 2 powi expo x"
proof (cases "x = 0")
  case True
  then have "x = of_int 0 * 2 powi expo x" by simp
  then show ?thesis ..
next
  case False
  with assms obtain k where "x / 2 powi expo x = of_int k"
    by (auto simp add: binary64_iff)
  then have "x = of_int k * 2 powi expo x" by (simp add: field_simps)
  then show ?thesis ..
qed

lemma binary64_grid:
  assumes "binary64 x" "e \<le> expo x"
  shows "\<exists>j. x = of_int j * 2 powi e"
proof -
  from binary64D [OF assms(1)] obtain k where k: "x = of_int k * 2 powi expo x" ..
  from grid_coarser [OF assms(2), of k] k show ?thesis by simp
qed

lemma binary64_subnormal_grid:
  assumes "binary64 x"
  shows "\<exists>j. x = of_int j * 2 powi (- 1074)"
  using binary64_grid [OF assms expo_ge] .

lemma binary64I:
  assumes "x = of_int k * 2 powi e" "expo x \<le> e" "\<bar>x\<bar> < 2 ^ 1024"
  shows "binary64 x"
proof -
  from grid_coarser [OF assms(2), of k] assms(1)
  obtain j where "x = of_int j * 2 powi expo x" by auto
  then have "x / 2 powi expo x = of_int j" by (rule grid_div)
  with assms(3) show ?thesis unfolding binary64_iff by blast
qed

lemma binary64I2:
  assumes x: "x = of_int m * 2 powi e" and m: "\<bar>m\<bar> \<le> 2 ^ 53" and e: "- 1074 \<le> e"
    and b: "\<bar>x\<bar> < 2 ^ 1024"
  shows "binary64 x"
proof (cases "x = 0")
  case True
  then show ?thesis by simp
next
  case False
  have ax: "\<bar>x\<bar> = of_int \<bar>m\<bar> * 2 powi e" by (simp add: x abs_mult)
  show ?thesis
  proof (cases "\<bar>m\<bar> = 2 ^ 53")
    case True
    then have "\<bar>x\<bar> = 2 powi (e + 53)" by (simp add: ax two_powi_add)
    moreover have "(2::rat) powi (e + 53) < 2 powi (e + 53 + 1)"
      by (intro power_int_strict_increasing) simp_all
    ultimately have "2 powi (e + 53) \<le> \<bar>x\<bar>" "\<bar>x\<bar> < 2 powi (e + 53 + 1)"
      by simp_all
    then have "ilog2 x = e + 53" by (rule ilog2_unique)
    then have ex: "expo x = e + 1" using e by (simp add: expo_def)
    have "2 dvd \<bar>m\<bar>" unfolding True by simp
    then have "even m" by simp
    then obtain h where h: "m = 2 * h" ..
    have "x = of_int h * 2 powi (e + 1)" by (simp add: x h two_powi_add)
    then show ?thesis by (rule binary64I [OF _ _ b]) (simp add: ex)
  next
    case False
    with m have "\<bar>m\<bar> < 2 ^ 53" by simp
    then have "(of_int \<bar>m\<bar> :: rat) < of_int (2 ^ 53)" by (simp only: of_int_less_iff)
    then have "\<bar>x\<bar> < 2 ^ 53 * 2 powi e" by (simp add: ax)
    then have "\<bar>x\<bar> < 2 powi (e + 53)" by (simp add: two_powi_add)
    with \<open>x \<noteq> 0\<close> have "ilog2 x < e + 53" by (rule ilog2_le)
    then have "expo x \<le> e" using e by (simp add: expo_def)
    with x show ?thesis by (rule binary64I [OF _ _ b])
  qed
qed

lemma grid_minus: "(\<exists>k. - y = (of_int k :: rat)) \<longleftrightarrow> (\<exists>k. y = of_int k)"
  by (metis add.inverse_inverse of_int_minus)

lemma binary64_minus [simp]: "binary64 (- x) = binary64 x"
  by (simp add: binary64_iff expo_minus grid_minus)

lemma rnd_exact:
  assumes "binary64 x"
  shows "rnd x = x"
proof -
  from binary64D [OF assms] obtain k where k: "x = of_int k * 2 powi expo x" ..
  then have "x / 2 powi expo x = of_int k" by (rule grid_div)
  then have "rne (x / 2 powi expo x) = k" by simp
  then show ?thesis using k by (simp add: rnd_alt)
qed

lemma rnd_zero [simp]: "rnd 0 = 0"
  by (simp add: rnd_def)

lemma scaled_bound:
  "x / 2 powi expo x \<le> 2 ^ 53 \<and> - (2 ^ 53) \<le> x / 2 powi expo x"
proof (cases "x = 0")
  case True
  then show ?thesis by simp
next
  case False
  have "ilog2 x + 1 \<le> expo x + 53" by (simp add: expo_def)
  then have "(2::rat) powi (ilog2 x + 1) \<le> 2 powi (expo x + 53)"
    by (intro power_int_increasing) simp_all
  with ilog2_bounds(2) [OF False] have "\<bar>x\<bar> < 2 powi (expo x + 53)" by simp
  then have "\<bar>x\<bar> < 2 ^ 53 * 2 powi expo x" by (simp add: two_powi_add)
  then have "x \<le> 2 ^ 53 * 2 powi expo x" "- (2 ^ 53) * 2 powi expo x \<le> x"
    by (simp_all add: abs_less_iff)
  then show ?thesis
    by (simp add: pos_divide_le_eq pos_le_divide_eq)
qed

lemma rne_scaled_bound: "\<bar>rne (x / 2 powi expo x)\<bar> \<le> 2 ^ 53"
proof -
  from scaled_bound [of x]
  have a: "x / 2 powi expo x \<le> of_int (2 ^ 53)" and b: "of_int (- (2 ^ 53)) \<le> x / 2 powi expo x"
    by simp_all
  from a have "rne (x / 2 powi expo x) \<le> 2 ^ 53" by (rule rne_le)
  moreover from b have "- (2 ^ 53) \<le> rne (x / 2 powi expo x)" by (rule rne_ge)
  ultimately show ?thesis by (simp add: abs_le_iff)
qed

lemma rnd_binary64:
  assumes "\<bar>rnd x\<bar> < 2 ^ 1024"
  shows "binary64 (rnd x)"
  using rnd_alt [of x] rne_scaled_bound [of x] expo_ge [of x] assms by (rule binary64I2)

lemma rnd_le:
  assumes r: "binary64 r" and xr: "x \<le> r"
  shows "rnd x \<le> r"
proof (cases "x = 0 \<or> expo x \<le> expo r")
  case True
  show ?thesis
  proof (cases "x = 0")
    case True
    with xr show ?thesis by simp
  next
    case False
    with True have True: "expo x \<le> expo r" by simp
  from binary64_grid [OF r True] obtain j where j: "r = of_int j * 2 powi expo x" ..
  have "x / 2 powi expo x \<le> r / 2 powi expo x" using xr by (simp add: divide_right_mono)
  also have "\<dots> = of_int j" by (simp add: j)
  finally have "rne (x / 2 powi expo x) \<le> j" by (rule rne_le)
  then have "(of_int (rne (x / 2 powi expo x)) :: rat) \<le> of_int j" by (simp only: of_int_le_iff)
  then have "of_int (rne (x / 2 powi expo x)) * 2 powi expo x \<le> of_int j * (2::rat) powi expo x"
    by (intro mult_right_mono) simp_all
  then show ?thesis by (simp add: rnd_alt [symmetric] j)
  qed
next
  case False
  then have lt: "expo r < expo x" and x0: "x \<noteq> 0" by simp_all
  then have ex: "expo x = ilog2 x - 52" and "ilog2 r - 52 < expo x"
    by (auto simp add: expo_def max_def split: if_splits)
  then have il: "ilog2 r + 1 \<le> ilog2 x" by simp
  have rB: "\<bar>r\<bar> < 2 powi ilog2 x"
  proof (cases "r = 0")
    case True
    then show ?thesis by simp
  next
    case False
    from ilog2_bounds(2) [OF False] have "\<bar>r\<bar> < 2 powi (ilog2 r + 1)" .
    also have "\<dots> \<le> 2 powi ilog2 x" using il by (intro power_int_increasing) simp_all
    finally show ?thesis .
  qed
  note Bx = ilog2_bounds(1) [OF x0]
  have xneg: "x \<le> - (2 powi ilog2 x)" using rB Bx xr by (simp add: abs_if split: if_splits)
  have "(2::rat) powi ilog2 x = 2 powi 52 * 2 powi expo x"
    using two_powi_add [of 52 "expo x"] by (simp add: ex)
  then have B: "(2::rat) powi ilog2 x = of_int (2 ^ 52) * 2 powi expo x" by simp
  have "x / 2 powi expo x \<le> - (2 powi ilog2 x) / 2 powi expo x"
    using xneg by (intro divide_right_mono) simp_all
  also have "\<dots> = of_int (- (2 ^ 52))" by (simp add: B)
  finally have "rne (x / 2 powi expo x) \<le> - (2 ^ 52)" by (rule rne_le)
  then have "(of_int (rne (x / 2 powi expo x)) :: rat) \<le> of_int (- (2 ^ 52))"
    by (simp only: of_int_le_iff)
  then have "of_int (rne (x / 2 powi expo x)) * 2 powi expo x
      \<le> of_int (- (2 ^ 52)) * (2::rat) powi expo x"
    by (intro mult_right_mono) simp_all
  then have "rnd x \<le> - (2 powi ilog2 x)" by (simp add: rnd_alt [symmetric] B)
  with rB show ?thesis by (simp add: abs_if split: if_splits)
qed

lemma rnd_ge:
  assumes r: "binary64 r" and xr: "r \<le> x"
  shows "r \<le> rnd x"
proof -
  have "rnd (- x) \<le> - r" using r xr by (intro rnd_le) simp_all
  then show ?thesis by (simp add: rnd_minus)
qed

text \<open>No binary64 value is nearer to \<open>x\<close> than \<open>rnd x\<close>.\<close>

lemma rnd_nearest_grid: "\<bar>rnd x - x\<bar> \<le> \<bar>of_int j * 2 powi expo x - x\<bar>"
proof -
  define s :: rat where "s = 2 powi expo x"
  have s0: "0 < s" by (simp add: s_def)
  have "rnd x - x = (of_int (rne (x / s)) - x / s) * s"
    using s0 by (simp add: rnd_alt s_def left_diff_distrib)
  then have "\<bar>rnd x - x\<bar> = \<bar>of_int (rne (x / s)) - x / s\<bar> * s"
    using s0 by (simp add: abs_mult)
  also have "\<dots> \<le> \<bar>of_int j - x / s\<bar> * s"
    using rne_nearest [of "x / s" j] s0 by (intro mult_right_mono) simp_all
  also have "\<dots> = \<bar>(of_int j - x / s) * s\<bar>" using s0 by (simp add: abs_mult)
  also have "(of_int j - x / s) * s = of_int j * s - x" using s0 by (simp add: left_diff_distrib)
  finally show ?thesis by (simp add: s_def)
qed

lemma rnd_nearest:
  assumes r: "binary64 r"
  shows "\<bar>rnd x - x\<bar> \<le> \<bar>r - x\<bar>"
proof (cases "x = 0 \<or> expo x \<le> expo r")
  case True
  show ?thesis
  proof (cases "x = 0")
    case True
    then show ?thesis by simp
  next
    case False
    with True have "expo x \<le> expo r" by simp
    from binary64_grid [OF r this] obtain j where j: "r = of_int j * 2 powi expo x" ..
    show ?thesis unfolding j by (rule rnd_nearest_grid)
  qed
next
  case False
  then have lt: "expo r < expo x" and x0: "x \<noteq> 0" by simp_all
  then have ex: "expo x = ilog2 x - 52" and "ilog2 r - 52 < expo x"
    by (auto simp add: expo_def max_def split: if_splits)
  then have il: "ilog2 r + 1 \<le> ilog2 x" by simp
  define B :: rat where "B = 2 powi ilog2 x"
  have rB: "\<bar>r\<bar> < B"
  proof (cases "r = 0")
    case True
    then show ?thesis by (simp add: B_def)
  next
    case False
    from ilog2_bounds(2) [OF False] have "\<bar>r\<bar> < 2 powi (ilog2 r + 1)" .
    also have "\<dots> \<le> 2 powi ilog2 x" using il by (intro power_int_increasing) simp_all
    finally show ?thesis by (simp add: B_def)
  qed
  have Bx: "B \<le> \<bar>x\<bar>" unfolding B_def by (rule ilog2_bounds(1) [OF x0])
  have "B = 2 powi 52 * 2 powi expo x"
    unfolding B_def using two_powi_add [of 52 "expo x"] by (simp add: ex)
  then have Bg: "of_int (2 ^ 52) * 2 powi expo x = B" by simp
  show ?thesis
  proof (cases "0 \<le> x")
    case True
    from rnd_nearest_grid [of x "2 ^ 52"] have "\<bar>rnd x - x\<bar> \<le> \<bar>B - x\<bar>"
      unfolding Bg .
    with True rB Bx show ?thesis by linarith
  next
    case False
    have "of_int (- (2 ^ 52)) * 2 powi expo x = - B" using Bg by simp
    with rnd_nearest_grid [of x "- (2 ^ 52)"] have "\<bar>rnd x - x\<bar> \<le> \<bar>- B - x\<bar>"
      by (simp only:)
    with False rB Bx show ?thesis by linarith
  qed
qed

lemma rnd_nonneg: "0 \<le> x \<Longrightarrow> 0 \<le> rnd x"
  using rnd_ge [of 0 x] by simp

lemma rnd_sum_error:
  assumes "binary64 a" "binary64 b"
  shows "\<bar>rnd (a + b) - (a + b)\<bar> \<le> \<bar>a + b\<bar> / 2 ^ 53"
proof (cases "a + b = 0 \<or> 2 powi (- 1022) \<le> \<bar>a + b\<bar>")
  case True
  then show ?thesis using rnd_rel_error [of "a + b"] by auto
next
  case False
  then have nz: "a + b \<noteq> 0" by simp
  from False have small: "\<bar>a + b\<bar> < 2 powi (- 1022)" by simp
  from binary64_subnormal_grid [OF assms(1)] obtain i where i: "a = of_int i * 2 powi (- 1074)" ..
  from binary64_subnormal_grid [OF assms(2)] obtain j where j: "b = of_int j * 2 powi (- 1074)" ..
  have s: "a + b = of_int (i + j) * 2 powi (- 1074)" by (simp add: i j distrib_right)
  have "expo (a + b) = - 1074"
    using ilog2_le [OF nz small] by (simp add: expo_def)
  then have "expo (a + b) \<le> - 1074" by simp
  moreover have "\<bar>a + b\<bar> < 2 ^ 1024"
  proof -
    have "(2::rat) powi (- 1022) \<le> 2 powi 1024" by (intro power_int_increasing) simp_all
    with small show ?thesis by simp
  qed
  ultimately have "binary64 (a + b)" using s by (intro binary64I [of _ "i + j" "- 1074"])
  then show ?thesis by (simp add: rnd_exact)
qed

lemma rnd_diff_error:
  assumes "binary64 a" "binary64 b"
  shows "\<bar>rnd (a - b) - (a - b)\<bar> \<le> \<bar>a - b\<bar> / 2 ^ 53"
  using rnd_sum_error [of a "- b"] assms by simp

section \<open>Evaluating a rounding\<close>

text \<open>
  A rounding of a given rational is computed by the simplifier once its binade \<open>n\<close> is
  named: the conditions left are comparisons and floors of numerals.
\<close>

lemma floor_rat_numeral: "\<lfloor>numeral a / numeral b :: rat\<rfloor> = numeral a div numeral b"
  using floor_divide_of_int_eq [of "numeral a" "numeral b", where ?'a = rat] by simp

lemma floor_rat_neg_numeral: "\<lfloor>- (numeral a / numeral b) :: rat\<rfloor> = - numeral a div numeral b"
  using floor_divide_of_int_eq [of "- numeral a" "numeral b", where ?'a = rat] by simp

lemmas rne_eval = rne_def Let_def floor_rat_numeral floor_rat_neg_numeral power_int_minus

lemma rnd_eval:
  assumes "2 powi n \<le> \<bar>x\<bar>" "\<bar>x\<bar> < 2 powi (n + 1)" 
    "of_int (rne (x / 2 powi max (n - 52) (- 1074))) * 2 powi max (n - 52) (- 1074) = y"
  shows "rnd x = y"
proof -
  from assms(1,2) have "ilog2 x = n" by (rule ilog2_unique)
  then have "expo x = max (n - 52) (- 1074)" by (simp add: expo_def)
  then show ?thesis using assms(3) by (simp add: rnd_alt)
qed

lemma rnd_eval_tiny:
  assumes "\<bar>x\<bar> < 2 powi (- 1022)" "of_int (rne (x / 2 powi (- 1074))) * 2 powi (- 1074) = y"
  shows "rnd x = y"
proof (cases "x = 0")
  case True
  then have "rne (x / 2 powi (- 1074)) = 0" by (simp add: rne_def)
  with assms(2) True show ?thesis by simp
next
  case False
  from ilog2_le [OF False assms(1)] have "expo x = - 1074" by (simp add: expo_def)
  then show ?thesis using assms(2) by (simp add: rnd_alt)
qed

lemma round_number_eval:
  assumes "rnd x = y" "\<bar>y\<bar> < 2 ^ 1024"
  shows "round_number x = Fin y"
  using assms by (auto simp add: round_number_def Let_def)

section \<open>The four roundings of the breakdown\<close>

text \<open>
  On a finite amount \<open>g \<ge> 0\<close> nothing overflows: the fee is at most \<open>g / 2\<close>, the
  tax at most the fee, and the two differences lie between the fee and \<open>g\<close> and between
  \<open>0\<close> and \<open>g\<close>.  The breakdown is therefore the record of \<open>fee_of\<close>, \<open>tax_of\<close>
  and \<open>net_of\<close>.
\<close>

lemma round_number_Fin: "\<bar>rnd x\<bar> < 2 ^ 1024 \<Longrightarrow> round_number x = Fin (rnd x)"
  by (auto simp add: round_number_def Let_def)

lemma rnd_bounded:
  assumes "binary64 r" "\<bar>x\<bar> \<le> r"
  shows "\<bar>rnd x\<bar> \<le> r"
proof -
  from assms(2) have "x \<le> r" "- r \<le> x" by (simp_all add: abs_le_iff)
  then have "rnd x \<le> r" "- r \<le> rnd x"
    using assms(1) by (simp_all add: rnd_le rnd_ge)
  then show ?thesis by (simp add: abs_le_iff)
qed

lemma round_number_bounded:
  assumes "binary64 r" "\<bar>x\<bar> \<le> r"
  shows "round_number x = Fin (rnd x)" and "binary64 (rnd x)"
proof -
  from rnd_bounded [OF assms] binary64_bound [OF assms(1)]
  have "\<bar>rnd x\<bar> < 2 ^ 1024" by linarith
  then show "round_number x = Fin (rnd x)" and "binary64 (rnd x)"
    by (simp_all add: round_number_Fin rnd_binary64)
qed

lemma fee_rate: "GATEWAY_FEE_PERCENTAGE = Fin feeRate"
proof -
  have "rnd (2 / 100) = feeRate"
    by (rule rnd_eval [where n = "- 6"]) (simp_all add: rne_eval feeRate_def)
  then show ?thesis
    unfolding GATEWAY_FEE_PERCENTAGE_def by (rule round_number_eval) (simp add: feeRate_def)
qed

lemma gst_rate: "GST_PERCENTAGE = Fin gstRate"
proof -
  have "rnd (18 / 100) = gstRate"
    by (rule rnd_eval [where n = "- 3"]) (simp_all add: rne_eval gstRate_def)
  then show ?thesis
    unfolding GST_PERCENTAGE_def by (rule round_number_eval) (simp add: gstRate_def)
qed

lemma rate_bounds: "0 < feeRate" "feeRate \<le> 1 / 4" "0 < gstRate" "gstRate \<le> 1 / 4"
  by (simp_all add: feeRate_def gstRate_def)

lemma binary64_mantissa:
  assumes "binary64 g" "0 \<le> g"
  shows "\<exists>m. g = of_int m * 2 powi expo g \<and> 0 \<le> m \<and> m \<le> 2 ^ 53"
proof -
  from binary64D [OF assms(1)] obtain m where m: "g = of_int m * 2 powi expo g" ..
  then have q: "g / 2 powi expo g = of_int m" by (rule grid_div)
  have "0 \<le> g / 2 powi expo g" using assms(2) by simp
  then have "0 \<le> m" unfolding q by simp
  moreover from scaled_bound [of g] have "(of_int m :: rat) \<le> of_int (2 ^ 53)"
    unfolding q by simp
  then have "m \<le> 2 ^ 53" by (simp only: of_int_le_iff)
  ultimately show ?thesis using m by blast
qed

lemma least_subnormal_fee: "rnd (2 powi (- 1074) * feeRate) = 0"
  by (rule rnd_eval_tiny) (simp_all add: rne_eval feeRate_def)

lemma fee_of_half:
  assumes "binary64 g" "0 \<le> g"
  shows "2 * fee_of g \<le> g"
proof -
  from binary64_mantissa [OF assms] obtain m where
    g: "g = of_int m * 2 powi expo g" and m0: "0 \<le> m" and m53: "m \<le> 2 ^ 53"
    by blast
  define e where "e = expo g"
  have ge: "g = of_int m * 2 powi e" using g by (simp add: e_def)
  consider "m = 0" | "m = 1" | "2 \<le> m" using m0 by linarith
  then show ?thesis
  proof cases
    case 1
    then show ?thesis by (simp add: ge fee_of_def)
  next
    case 2
    then have g2: "g = 2 powi e" by (simp add: ge)
    have "(2::rat) powi e < 2 powi (e + 1)" by (intro power_int_strict_increasing) simp_all
    then have "ilog2 g = e" by (intro ilog2_unique) (simp_all add: g2)
    then have "e = - 1074" using e_def by (simp add: expo_def max_def split: if_splits)
    with g2 have "g = 2 powi (- 1074)" by (simp only:)
    then have "fee_of g = 0" unfolding fee_of_def by (simp only: least_subnormal_fee)
    then show ?thesis using assms(2) by simp
  next
    case 3
    define h :: rat where "h = of_int (m div 2) * 2 powi e"
    have p: "(0::rat) < 2 powi e" by simp
    have "m \<le> 2 * (m div 2) + 1" by linarith
    then have "(of_int m :: rat) \<le> of_int (2 * (m div 2) + 1)" by (simp only: of_int_le_iff)
    then have a: "(of_int m :: rat) \<le> 2 * of_int (m div 2) + 1" by simp
    have "2 * (m div 2) \<le> m" by linarith
    then have "(of_int (2 * (m div 2)) :: rat) \<le> of_int m" by (simp only: of_int_le_iff)
    then have b: "2 * (of_int (m div 2) :: rat) \<le> of_int m" by simp
    have "(of_int 2 :: rat) \<le> of_int m" using 3 by (simp only: of_int_le_iff)
    then have c: "(2::rat) \<le> of_int m" by simp
    have "of_int m * feeRate \<le> of_int m * (1 / 4)"
      using rate_bounds(2) c by (intro mult_left_mono) simp_all
    also have "\<dots> \<le> of_int (m div 2)" using a c by simp
    finally have "of_int m * feeRate * 2 powi e \<le> of_int (m div 2) * 2 powi e"
      using p by (intro mult_right_mono) simp_all
    then have xh: "g * feeRate \<le> h" by (simp add: ge h_def mult_ac)
    have "2 * of_int (m div 2) * 2 powi e \<le> of_int m * (2::rat) powi e"
      using b p by (intro mult_right_mono) simp_all
    then have hg: "2 * h \<le> g" by (simp add: ge h_def)
    have h0: "0 \<le> h" using 3 by (simp add: h_def pos_imp_zdiv_nonneg_iff)
    have "\<bar>h\<bar> < 2 ^ 1024" using binary64_bound [OF assms(1)] hg h0 assms(2) by simp
    moreover have "\<bar>m div 2\<bar> \<le> 2 ^ 53" using m0 m53 by simp
    moreover have "- 1074 \<le> e" by (simp add: e_def expo_ge)
    ultimately have "binary64 h" using h_def by (intro binary64I2 [of h "m div 2" e]) simp_all
    then have "rnd (g * feeRate) \<le> h" using xh by (rule rnd_le)
    with hg show ?thesis by (simp add: fee_of_def)
  qed
qed

lemma fee_of_bounds:
  assumes "binary64 g" "0 \<le> g"
  shows "0 \<le> fee_of g" and "fee_of g \<le> g" and "binary64 (fee_of g)"
    and "round_number (g * feeRate) = Fin (fee_of g)"
proof -
  have x0: "0 \<le> g * feeRate" using assms(2) rate_bounds(1) by simp
  then show f0: "0 \<le> fee_of g" unfolding fee_of_def by (rule rnd_nonneg)
  from fee_of_half [OF assms] f0 show "fee_of g \<le> g" by simp
  have "g * feeRate \<le> g * 1" using assms(2) rate_bounds(2) by (intro mult_left_mono) simp_all
  then have "\<bar>g * feeRate\<bar> \<le> g" using x0 by simp
  from round_number_bounded [OF assms(1) this]
  show "binary64 (fee_of g)" and "round_number (g * feeRate) = Fin (fee_of g)"
    by (simp_all add: fee_of_def)
qed

lemma tax_of_bounds:
  assumes "binary64 g" "0 \<le> g"
  shows "0 \<le> tax_of g" and "tax_of g \<le> fee_of g" and "binary64 (tax_of g)"
    and "round_number (fee_of g * gstRate) = Fin (tax_of g)"
proof -
  note f = fee_of_bounds [OF assms]
  have x0: "0 \<le> fee_of g * gstRate" using f(1) rate_bounds(3) by simp
  then show "0 \<le> tax_of g" unfolding tax_of_def by (rule rnd_nonneg)
  have le: "fee_of g * gstRate \<le> fee_of g * 1"
    using f(1) rate_bounds(4) by (intro mult_left_mono) simp_all
  then show "tax_of g \<le> fee_of g" unfolding tax_of_def using f(3) by (intro rnd_le) simp_all
  from le x0 have "\<bar>fee_of g * gstRate\<bar> \<le> fee_of g" by simp
  from round_number_bounded [OF f(3) this]
  show "binary64 (tax_of g)" and "round_number (fee_of g * gstRate) = Fin (tax_of g)"
    by (simp_all add: tax_of_def)
qed

lemma rest_of_bounds:
  assumes "binary64 g" "0 \<le> g"
  shows "fee_of g \<le> rest_of g" and "rest_of g \<le> g" and "binary64 (rest_of g)"
    and "round_number (g - fee_of g) = Fin (rest_of g)"
proof -
  note f = fee_of_bounds [OF assms]
  from fee_of_half [OF assms] have "fee_of g \<le> g - fee_of g" by simp
  then show "fee_of g \<le> rest_of g" unfolding rest_of_def using f(3) by (intro rnd_ge)
  have "g - fee_of g \<le> g" using f(1) by simp
  then show "rest_of g \<le> g" unfolding rest_of_def using assms(1) by (intro rnd_le)
  have "\<bar>g - fee_of g\<bar> \<le> g" using f(1,2) by simp
  from round_number_bounded [OF assms(1) this]
  show "binary64 (rest_of g)" and "round_number (g - fee_of g) = Fin (rest_of g)"
    by (simp_all add: rest_of_def)
qed

lemma net_of_bounds:
  assumes "binary64 g" "0 \<le> g"
  shows "0 \<le> net_of g" and "net_of g \<le> g" and "binary64 (net_of g)"
    and "round_number (rest_of g - tax_of g) = Fin (net_of g)"
proof -
  note f = fee_of_bounds [OF assms] and t = tax_of_bounds [OF assms]
    and r = rest_of_bounds [OF assms]
  have x0: "0 \<le> rest_of g - tax_of g" using t(2) r(1) by simp
  then show "0 \<le> net_of g" unfolding net_of_def by (rule rnd_nonneg)
  have le: "rest_of g - tax_of g \<le> rest_of g" using t(1) by simp
  then have "net_of g \<le> rest_of g" unfolding net_of_def using r(3) by (intro rnd_le)
  with r(2) show "net_of g \<le> g" by simp
  from le x0 have "\<bar>rest_of g - tax_of g\<bar> \<le> rest_of g" by simp
  from round_number_bounded [OF r(3) this]
  show "binary64 (net_of g)" and "round_number (rest_of g - tax_of g) = Fin (net_of g)"
    by (simp_all add: net_of_def)
qed

lemma breakdown_finite:
  assumes "binary64 g" "0 \<le> g"
  shows "calculateWithdrawalBreakdown (Fin g) =
    \<lparr>gatewayFee = Fin (fee_of g), gst = Fin (tax_of g), netAmount = Fin (net_of g)\<rparr>"
  using fee_of_bounds(4) [OF assms] tax_of_bounds(4) [OF assms] rest_of_bounds(4) [OF assms]
    net_of_bounds(4) [OF assms]
  by (simp add: calculateWithdrawalBreakdown_def fee_rate gst_rate Let_def)

section \<open>The breakdown at particular amounts\<close>

text \<open>
  The roundings at 2000, at 1000 and the binary64 value that follows it, at \<open>-100\<close>,
  at two subnormal amounts, at two adjacent amounts just below \<open>2^-1016\<close>, and at the
  two largest finite numbers.
\<close>

lemma breakdown_eval:
  assumes "rnd (g * feeRate) = f" "rnd (f * gstRate) = t" "rnd (g - f) = r" "rnd (r - t) = n"
    and "\<bar>f\<bar> < 2 ^ 1024" "\<bar>t\<bar> < 2 ^ 1024" "\<bar>r\<bar> < 2 ^ 1024" "\<bar>n\<bar> < 2 ^ 1024"
  shows "calculateWithdrawalBreakdown (Fin g) = \<lparr>gatewayFee = Fin f, gst = Fin t, netAmount = Fin n\<rparr>"
  using assms
  by (simp add: calculateWithdrawalBreakdown_def fee_rate gst_rate Let_def round_number_eval)

lemma total_eval:
  assumes "calculateWithdrawalBreakdown (Fin g) = \<lparr>gatewayFee = Fin f, gst = Fin t, netAmount = Fin n\<rparr>"
    and "rnd (f + t) = a" "rnd (a + n) = s" "\<bar>a\<bar> < 2 ^ 1024" "\<bar>s\<bar> < 2 ^ 1024"
  shows "breakdown_total (calculateWithdrawalBreakdown (Fin g)) = Fin s"
  using assms by (simp add: breakdown_total_def round_number_eval)

lemma literal_7_2: "rnd (72 / 10) = 8106479329266893 / 2 ^ 50"
  by (rule rnd_eval [where n = 2]) (simp_all add: rne_eval)

lemma literal_1952_8: "rnd (19528 / 10) = 8588505226883891 / 2 ^ 42"
  by (rule rnd_eval [where n = 10]) (simp_all add: rne_eval)

lemma gst_on_gross_2000: "rnd (2000 * gstRate) = 360"
  by (rule rnd_eval [where n = 8]) (simp_all add: rne_eval gstRate_def)

lemma at_2000_fee: "rnd (2000 * feeRate) = 40"
  by (rule rnd_eval [where n = 5]) (simp_all add: rne_eval feeRate_def)

lemma at_2000_tax: "rnd (40 * gstRate) = 2026619832316723 / 2 ^ 48"
  by (rule rnd_eval [where n = 2]) (simp_all add: rne_eval gstRate_def)

lemma at_2000_rest: "rnd (2000 - 40) = 1960"
  by (rule rnd_eval [where n = 10]) (simp_all add: rne_eval)

lemma at_2000_net: "rnd (1960 - 2026619832316723 / 2 ^ 48) = 8588505226883891 / 2 ^ 42"
  by (rule rnd_eval [where n = 10]) (simp_all add: rne_eval)

lemma at_2000_breakdown:
  "calculateWithdrawalBreakdown (Fin (2000)) =
     \<lparr>gatewayFee = Fin (40), gst = Fin (2026619832316723 / 2 ^ 48),
      netAmount = Fin (8588505226883891 / 2 ^ 42)\<rparr>"
  by (rule breakdown_eval [OF at_2000_fee at_2000_tax at_2000_rest at_2000_net]) simp_all

lemma at_2000_part: "rnd (40 + 2026619832316723 / 2 ^ 48) = 3321404725185741 / 2 ^ 46"
  by (rule rnd_eval [where n = 5]) (simp_all add: rne_eval)

lemma at_2000_sum: "rnd (3321404725185741 / 2 ^ 46 + 8588505226883891 / 2 ^ 42) = 2000"
  by (rule rnd_eval [where n = 10]) (simp_all add: rne_eval)

lemma at_2000_total:
  "breakdown_total (calculateWithdrawalBreakdown (Fin (2000))) =
     Fin (2000)"
  by (rule total_eval [OF at_2000_breakdown at_2000_part at_2000_sum]) simp_all

lemma at_1000_fee: "rnd (1000 * feeRate) = 20"
  by (rule rnd_eval [where n = 4]) (simp_all add: rne_eval feeRate_def)

lemma at_1000_tax: "rnd (20 * gstRate) = 2026619832316723 / 2 ^ 49"
  by (rule rnd_eval [where n = 1]) (simp_all add: rne_eval gstRate_def)

lemma at_1000_rest: "rnd (1000 - 20) = 980"
  by (rule rnd_eval [where n = 9]) (simp_all add: rne_eval)

lemma at_1000_net: "rnd (980 - 2026619832316723 / 2 ^ 49) = 8588505226883891 / 2 ^ 43"
  by (rule rnd_eval [where n = 9]) (simp_all add: rne_eval)

lemma at_1000_breakdown:
  "calculateWithdrawalBreakdown (Fin (1000)) =
     \<lparr>gatewayFee = Fin (20), gst = Fin (2026619832316723 / 2 ^ 49),
      netAmount = Fin (8588505226883891 / 2 ^ 43)\<rparr>"
  by (rule breakdown_eval [OF at_1000_fee at_1000_tax at_1000_rest at_1000_net]) simp_all

lemma after_1000_fee: "rnd (8796093022208001 / 2 ^ 43 * feeRate) = 5629499534213121 / 2 ^ 48"
  by (rule rnd_eval [where n = 4]) (simp_all add: rne_eval feeRate_def)

lemma after_1000_tax: "rnd (5629499534213121 / 2 ^ 48 * gstRate) = 4053239664633447 / 2 ^ 50"
  by (rule rnd_eval [where n = 1]) (simp_all add: rne_eval gstRate_def)

lemma after_1000_rest: "rnd (8796093022208001 / 2 ^ 43 - 5629499534213121 / 2 ^ 48) = 8620171161763841 / 2 ^ 43"
  by (rule rnd_eval [where n = 9]) (simp_all add: rne_eval)

lemma after_1000_net: "rnd (8620171161763841 / 2 ^ 43 - 4053239664633447 / 2 ^ 50) = 2147126306720973 / 2 ^ 41"
  by (rule rnd_eval [where n = 9]) (simp_all add: rne_eval)

lemma after_1000_breakdown:
  "calculateWithdrawalBreakdown (Fin (8796093022208001 / 2 ^ 43)) =
     \<lparr>gatewayFee = Fin (5629499534213121 / 2 ^ 48), gst = Fin (4053239664633447 / 2 ^ 50),
      netAmount = Fin (2147126306720973 / 2 ^ 41)\<rparr>"
  by (rule breakdown_eval [OF after_1000_fee after_1000_tax after_1000_rest after_1000_net]) simp_all

lemma at_minus_100_fee: "rnd (- 100 * feeRate) = - 2"
  by (rule rnd_eval [where n = 1]) (simp_all add: rne_eval feeRate_def)

lemma at_minus_100_tax: "rnd (- 2 * gstRate) = - (3242591731706757 / 2 ^ 53)"
  by (rule rnd_eval [where n = "- 2"]) (simp_all add: rne_eval gstRate_def)

lemma at_minus_100_rest: "rnd (- 100 - - 2) = - 98"
  by (rule rnd_eval [where n = 6]) (simp_all add: rne_eval)

lemma at_minus_100_net: "rnd (- 98 - - (3242591731706757 / 2 ^ 53)) = - (6870804181507113 / 2 ^ 46)"
  by (rule rnd_eval [where n = 6]) (simp_all add: rne_eval)

lemma at_minus_100_breakdown:
  "calculateWithdrawalBreakdown (Fin (- 100)) =
     \<lparr>gatewayFee = Fin (- 2), gst = Fin (- (3242591731706757 / 2 ^ 53)),
      netAmount = Fin (- (6870804181507113 / 2 ^ 46))\<rparr>"
  by (rule breakdown_eval [OF at_minus_100_fee at_minus_100_tax at_minus_100_rest at_minus_100_net]) simp_all

lemma at_124_ulp_fee: "rnd (124 * 2 powi (- 1074) * feeRate) = 2 * 2 powi (- 1074)"
  by (rule rnd_eval_tiny) (simp_all add: rne_eval feeRate_def)

lemma at_124_ulp_tax: "rnd (2 * 2 powi (- 1074) * gstRate) = 0"
  by (rule rnd_eval_tiny) (simp_all add: rne_eval gstRate_def)

lemma at_124_ulp_rest: "rnd (124 * 2 powi (- 1074) - 2 * 2 powi (- 1074)) = 122 * 2 powi (- 1074)"
  by (rule rnd_eval_tiny) (simp_all add: rne_eval)

lemma at_124_ulp_net: "rnd (122 * 2 powi (- 1074) - 0) = 122 * 2 powi (- 1074)"
  by (rule rnd_eval_tiny) (simp_all add: rne_eval)

lemma at_124_ulp_breakdown:
  "calculateWithdrawalBreakdown (Fin (124 * 2 powi (- 1074))) =
     \<lparr>gatewayFee = Fin (2 * 2 powi (- 1074)), gst = Fin (0),
      netAmount = Fin (122 * 2 powi (- 1074))\<rparr>"
  by (rule breakdown_eval [OF at_124_ulp_fee at_124_ulp_tax at_124_ulp_rest at_124_ulp_net]) simp_all

lemma at_125_ulp_fee: "rnd (125 * 2 powi (- 1074) * feeRate) = 3 * 2 powi (- 1074)"
  by (rule rnd_eval_tiny) (simp_all add: rne_eval feeRate_def)

lemma at_125_ulp_tax: "rnd (3 * 2 powi (- 1074) * gstRate) = 1 * 2 powi (- 1074)"
  by (rule rnd_eval_tiny) (simp_all add: rne_eval gstRate_def)

lemma at_125_ulp_rest: "rnd (125 * 2 powi (- 1074) - 3 * 2 powi (- 1074)) = 122 * 2 powi (- 1074)"
  by (rule rnd_eval_tiny) (simp_all add: rne_eval)

lemma at_125_ulp_net: "rnd (122 * 2 powi (- 1074) - 1 * 2 powi (- 1074)) = 121 * 2 powi (- 1074)"
  by (rule rnd_eval_tiny) (simp_all add: rne_eval)

lemma at_125_ulp_breakdown:
  "calculateWithdrawalBreakdown (Fin (125 * 2 powi (- 1074))) =
     \<lparr>gatewayFee = Fin (3 * 2 powi (- 1074)), gst = Fin (1 * 2 powi (- 1074)),
      netAmount = Fin (121 * 2 powi (- 1074))\<rparr>"
  by (rule breakdown_eval [OF at_125_ulp_fee at_125_ulp_tax at_125_ulp_rest at_125_ulp_net]) simp_all

lemma below_threshold_fee: "rnd (9007199254736524 * 2 powi (- 1069) * feeRate) = 5764607523031375 * 2 powi (- 1074)"
  by (rule rnd_eval [where n = "- 1022"]) (simp_all add: rne_eval feeRate_def)

lemma below_threshold_tax: "rnd (5764607523031375 * 2 powi (- 1074) * gstRate) = 1037629354145647 * 2 powi (- 1074)"
  by (rule rnd_eval_tiny) (simp_all add: rne_eval gstRate_def)

lemma below_threshold_rest: "rnd (9007199254736524 * 2 powi (- 1069) - 5764607523031375 * 2 powi (- 1074)) = 282465768628537408 * 2 powi (- 1074)"
  by (rule rnd_eval [where n = "- 1017"]) (simp_all add: rne_eval)

lemma below_threshold_net: "rnd (282465768628537408 * 2 powi (- 1074) - 1037629354145647 * 2 powi (- 1074)) = 281428139274391776 * 2 powi (- 1074)"
  by (rule rnd_eval [where n = "- 1017"]) (simp_all add: rne_eval)

lemma below_threshold_breakdown:
  "calculateWithdrawalBreakdown (Fin (9007199254736524 * 2 powi (- 1069))) =
     \<lparr>gatewayFee = Fin (5764607523031375 * 2 powi (- 1074)), gst = Fin (1037629354145647 * 2 powi (- 1074)),
      netAmount = Fin (281428139274391776 * 2 powi (- 1074))\<rparr>"
  by (rule breakdown_eval [OF below_threshold_fee below_threshold_tax below_threshold_rest below_threshold_net]) simp_all

lemma below_threshold_next_fee: "rnd (9007199254736525 * 2 powi (- 1069) * feeRate) = 5764607523031376 * 2 powi (- 1074)"
  by (rule rnd_eval [where n = "- 1022"]) (simp_all add: rne_eval feeRate_def)

lemma below_threshold_next_tax: "rnd (5764607523031376 * 2 powi (- 1074) * gstRate) = 1037629354145648 * 2 powi (- 1074)"
  by (rule rnd_eval_tiny) (simp_all add: rne_eval gstRate_def)

lemma below_threshold_next_rest: "rnd (9007199254736525 * 2 powi (- 1069) - 5764607523031376 * 2 powi (- 1074)) = 282465768628537408 * 2 powi (- 1074)"
  by (rule rnd_eval [where n = "- 1017"]) (simp_all add: rne_eval)

lemma below_threshold_next_net: "rnd (282465768628537408 * 2 powi (- 1074) - 1037629354145648 * 2 powi (- 1074)) = 281428139274391744 * 2 powi (- 1074)"
  by (rule rnd_eval [where n = "- 1017"]) (simp_all add: rne_eval)

lemma below_threshold_next_breakdown:
  "calculateWithdrawalBreakdown (Fin (9007199254736525 * 2 powi (- 1069))) =
     \<lparr>gatewayFee = Fin (5764607523031376 * 2 powi (- 1074)), gst = Fin (1037629354145648 * 2 powi (- 1074)),
      netAmount = Fin (281428139274391744 * 2 powi (- 1074))\<rparr>"
  by (rule breakdown_eval [OF below_threshold_next_fee below_threshold_next_tax below_threshold_next_rest below_threshold_next_net]) simp_all

lemma at_max_fee: "rnd (9007199254740991 * 2 ^ 971 * feeRate) = 2882303761517117 * 2 ^ 967"
  by (rule rnd_eval [where n = 1018]) (simp_all add: rne_eval feeRate_def)

lemma at_max_tax: "rnd (2882303761517117 * 2 ^ 967 * gstRate) = 8301034833169297 * 2 ^ 963"
  by (rule rnd_eval [where n = 1015]) (simp_all add: rne_eval gstRate_def)

lemma at_max_rest: "rnd (9007199254740991 * 2 ^ 971 - 2882303761517117 * 2 ^ 967) = 8827055269646171 * 2 ^ 971"
  by (rule rnd_eval [where n = 1023]) (simp_all add: rne_eval)

lemma at_max_net: "rnd (8827055269646171 * 2 ^ 971 - 8301034833169297 * 2 ^ 963) = 8794629352329103 * 2 ^ 971"
  by (rule rnd_eval [where n = 1023]) (simp_all add: rne_eval)

lemma at_max_breakdown:
  "calculateWithdrawalBreakdown (Fin (9007199254740991 * 2 ^ 971)) =
     \<lparr>gatewayFee = Fin (2882303761517117 * 2 ^ 967), gst = Fin (8301034833169297 * 2 ^ 963),
      netAmount = Fin (8794629352329103 * 2 ^ 971)\<rparr>"
  by (rule breakdown_eval [OF at_max_fee at_max_tax at_max_rest at_max_net]) simp_all

lemma at_max_part: "rnd (2882303761517117 * 2 ^ 967 + 8301034833169297 * 2 ^ 963) = 1700559219295099 * 2 ^ 968"
  by (rule rnd_eval [where n = 1018]) (simp_all add: rne_eval)

lemma at_max_sum: "rnd (1700559219295099 * 2 ^ 968 + 8794629352329103 * 2 ^ 971) = 4503599627370495 * 2 ^ 972"
  by (rule rnd_eval [where n = 1023]) (simp_all add: rne_eval)

lemma at_max_total:
  "breakdown_total (calculateWithdrawalBreakdown (Fin (9007199254740991 * 2 ^ 971))) =
     Fin (4503599627370495 * 2 ^ 972)"
  by (rule total_eval [OF at_max_breakdown at_max_part at_max_sum]) simp_all

lemma below_max_fee: "rnd (4503599627370495 * 2 ^ 972 * feeRate) = 2882303761517117 * 2 ^ 967"
  by (rule rnd_eval [where n = 1018]) (simp_all add: rne_eval feeRate_def)

lemma below_max_tax: "rnd (2882303761517117 * 2 ^ 967 * gstRate) = 8301034833169297 * 2 ^ 963"
  by (rule rnd_eval [where n = 1015]) (simp_all add: rne_eval gstRate_def)

lemma below_max_rest: "rnd (4503599627370495 * 2 ^ 972 - 2882303761517117 * 2 ^ 967) = 4413527634823085 * 2 ^ 972"
  by (rule rnd_eval [where n = 1023]) (simp_all add: rne_eval)

lemma below_max_net: "rnd (4413527634823085 * 2 ^ 972 - 8301034833169297 * 2 ^ 963) = 4397314676164551 * 2 ^ 972"
  by (rule rnd_eval [where n = 1023]) (simp_all add: rne_eval)

lemma below_max_breakdown:
  "calculateWithdrawalBreakdown (Fin (4503599627370495 * 2 ^ 972)) =
     \<lparr>gatewayFee = Fin (2882303761517117 * 2 ^ 967), gst = Fin (8301034833169297 * 2 ^ 963),
      netAmount = Fin (4397314676164551 * 2 ^ 972)\<rparr>"
  by (rule breakdown_eval [OF below_max_fee below_max_tax below_max_rest below_max_net]) simp_all

lemma below_max_part: "rnd (2882303761517117 * 2 ^ 967 + 8301034833169297 * 2 ^ 963) = 1700559219295099 * 2 ^ 968"
  by (rule rnd_eval [where n = 1018]) (simp_all add: rne_eval)

lemma below_max_sum: "rnd (1700559219295099 * 2 ^ 968 + 4397314676164551 * 2 ^ 972) = 9007199254740989 * 2 ^ 971"
  by (rule rnd_eval [where n = 1023]) (simp_all add: rne_eval)

lemma below_max_total:
  "breakdown_total (calculateWithdrawalBreakdown (Fin (4503599627370495 * 2 ^ 972))) =
     Fin (9007199254740989 * 2 ^ 971)"
  by (rule total_eval [OF below_max_breakdown below_max_part below_max_sum]) simp_all

section \<open>The recomputed total\<close>

text \<open>
  The fee and the tax cancel in \<open>gatewayFee + gst + netAmount\<close>; what is left are the
  errors of the two subtractions and of the two additions, each at most a relative
  \<open>2^-53\<close>.  Below the two largest finite numbers the sum cannot overflow; at those two it
  is computed.
\<close>

lemma expo_le_top:
  assumes "\<bar>x\<bar> < 2 ^ 1024"
  shows "expo x \<le> 971"
proof (cases "x = 0")
  case True
  then show ?thesis by (simp add: expo_def)
next
  case False
  from assms have "\<bar>x\<bar> < 2 powi 1024" by simp
  with False have "ilog2 x < 1024" by (rule ilog2_le)
  then show ?thesis by (simp add: expo_def)
qed

lemma rnd_error_top:
  assumes "\<bar>x\<bar> < 2 ^ 1024"
  shows "\<bar>rnd x - x\<bar> \<le> 2 ^ 970"
proof -
  have "(2::rat) powi expo x \<le> 2 powi 971"
    using expo_le_top [OF assms] by (intro power_int_increasing) simp_all
  then have "(2::rat) powi expo x / 2 \<le> 2 ^ 970" by simp
  with rnd_error [of x] show ?thesis by linarith
qed

lemma binary64_max_value: "binary64 max_value"
proof -
  have "max_value = of_int (2 ^ 53 - 1) * 2 powi 971" by (simp add: max_value_def)
  then show ?thesis by (rule binary64I2) (simp_all add: max_value_def)
qed

lemma top_floats:
  assumes "binary64 g" "(2 ^ 53 - 3) * 2 ^ 971 < g"
  shows "g = (2 ^ 53 - 2) * 2 ^ 971 \<or> g = max_value"
proof -
  have g0: "0 < g" using assms(2) by simp
  have lo: "2 powi 1023 \<le> \<bar>g\<bar>" using assms(2) by simp
  have hi: "\<bar>g\<bar> < 2 powi (1023 + 1)" using binary64_bound [OF assms(1)] by simp
  from lo hi have "ilog2 g = 1023" by (rule ilog2_unique)
  then have "expo g = 971" by (simp add: expo_def)
  with binary64D [OF assms(1)] obtain k where k: "g = of_int k * 2 powi 971" by auto
  then have gk: "g = of_int k * 2 ^ 971" by simp
  have "of_int (2 ^ 53 - 3) * 2 ^ 971 < of_int k * (2 ^ 971 :: rat)"
    using assms(2) unfolding gk by simp
  then have "(of_int (2 ^ 53 - 3) :: rat) < of_int k" by (simp only: mult_less_cancel_right_pos zero_less_power zero_less_numeral)
  then have k1: "2 ^ 53 - 3 < k" by (simp only: of_int_less_iff)
  have "of_int k * (2 ^ 971 :: rat) < of_int (2 ^ 53) * 2 ^ 971"
    using hi g0 unfolding gk by simp
  then have "(of_int k :: rat) < of_int (2 ^ 53)" by (simp only: mult_less_cancel_right_pos zero_less_power zero_less_numeral)
  then have k2: "k < 2 ^ 53" by (simp only: of_int_less_iff)
  from k1 k2 have "k = 2 ^ 53 - 2 \<or> k = 2 ^ 53 - 1" by auto
  then show ?thesis by (auto simp add: gk max_value_def)
qed

lemma total_general:
  assumes g: "binary64 g" "0 \<le> g" and top: "g \<le> (2 ^ 53 - 3) * 2 ^ 971"
  shows "breakdown_total (calculateWithdrawalBreakdown (Fin g)) = Fin (sum_of g)"
    and "\<bar>sum_of g - g\<bar> \<le> g / 2 ^ 50"
proof -
  define f t r n a s where "f = fee_of g" and "t = tax_of g" and "r = rest_of g"
    and "n = net_of g" and "a = part_of g" and "s = sum_of g"
  note fb = fee_of_bounds [OF g, folded f_def] and tb = tax_of_bounds [OF g, folded f_def t_def]
    and rb = rest_of_bounds [OF g, folded f_def r_def]
    and nb = net_of_bounds [OF g, folded r_def t_def n_def]
  have half: "2 * f \<le> g" using fee_of_half [OF g] by (simp add: f_def)
  have gtop: "\<bar>g\<bar> < 2 ^ 1024" using g(1) by (rule binary64_bound)
  have e3: "\<bar>r - (g - f)\<bar> \<le> \<bar>g - f\<bar> / 2 ^ 53"
    using rnd_diff_error [OF g(1) fb(3)] by (simp add: r_def rest_of_def f_def)
  have e3': "\<bar>r - (g - f)\<bar> \<le> 2 ^ 970"
    using rnd_error_top [of "g - f"] fb(1,2) gtop by (simp add: r_def rest_of_def f_def)
  have e4: "\<bar>n - (r - t)\<bar> \<le> \<bar>r - t\<bar> / 2 ^ 53"
    using rnd_diff_error [OF rb(3) tb(3)] by (simp add: n_def net_of_def r_def t_def)
  have e4': "\<bar>n - (r - t)\<bar> \<le> 2 ^ 970"
    using rnd_error_top [of "r - t"] tb(1,2) rb(1,2) fb(1) gtop
    by (simp add: n_def net_of_def r_def t_def)
  have ft: "\<bar>f + t\<bar> \<le> g" using fb(1) tb(1,2) half by simp
  from round_number_bounded [OF g(1) ft]
  have ra: "round_number (f + t) = Fin a" and ba: "binary64 a"
    by (simp_all add: a_def part_of_def f_def t_def)
  have e5: "\<bar>a - (f + t)\<bar> \<le> \<bar>f + t\<bar> / 2 ^ 53"
    using rnd_sum_error [OF fb(3) tb(3)] by (simp add: a_def part_of_def f_def t_def)
  have e5': "\<bar>a - (f + t)\<bar> \<le> 2 ^ 970"
    using rnd_error_top [of "f + t"] ft gtop by (simp add: a_def part_of_def f_def t_def)
  have d3: "\<bar>g - f\<bar> / 2 ^ 53 \<le> g / 2 ^ 53" using fb(1,2) by (simp add: divide_right_mono)
  have d4: "\<bar>r - t\<bar> / 2 ^ 53 \<le> g / 2 ^ 53"
    using tb(1,2) rb(1,2) fb(1) by (simp add: divide_right_mono)
  have d5: "\<bar>f + t\<bar> / 2 ^ 53 \<le> g / 2 ^ 53" using ft by (simp add: divide_right_mono)
  have an: "\<bar>a + n - g\<bar> \<le> 3 * (g / 2 ^ 53)" using e3 e4 e5 d3 d4 d5 by linarith
  have an': "a + n \<le> g + 3 * 2 ^ 970" using e3' e4' e5' by linarith
  have "a + n \<le> max_value" using an' top by (simp add: max_value_def)
  then have "rnd (a + n) \<le> max_value" using binary64_max_value by (intro rnd_le)
  moreover have a0: "0 \<le> a" using fb(1) tb(1) by (simp add: a_def part_of_def f_def t_def rnd_nonneg)
  then have "0 \<le> rnd (a + n)" using nb(1) by (intro rnd_nonneg) simp
  ultimately have stop: "\<bar>s\<bar> < 2 ^ 1024"
    by (simp add: s_def sum_of_def a_def n_def max_value_def)
  then have rs: "round_number (a + n) = Fin s"
    by (simp add: s_def sum_of_def a_def n_def round_number_Fin)
  show "breakdown_total (calculateWithdrawalBreakdown (Fin g)) = Fin (sum_of g)"
    using ra rs
    by (simp add: breakdown_finite [OF g] breakdown_total_def f_def t_def n_def s_def)
  have e6: "\<bar>s - (a + n)\<bar> \<le> \<bar>a + n\<bar> / 2 ^ 53"
    using rnd_sum_error [OF ba nb(3)] by (simp add: s_def sum_of_def a_def n_def)
  have "\<bar>a + n\<bar> \<le> g + 3 * (g / 2 ^ 53)" using an g(2) by linarith
  then have "\<bar>a + n\<bar> / 2 ^ 53 \<le> (g + 3 * (g / 2 ^ 53)) / 2 ^ 53" by (simp add: divide_right_mono)
  with e6 an have "\<bar>s - g\<bar> \<le> (g + 3 * (g / 2 ^ 53)) / 2 ^ 53 + 3 * (g / 2 ^ 53)" by linarith
  also have "\<dots> \<le> g / 2 ^ 50" using g(2) by simp
  finally show "\<bar>sum_of g - g\<bar> \<le> g / 2 ^ 50" by (simp add: s_def)
qed

lemma exact_sum_close:
  assumes g: "binary64 g" "0 \<le> g"
  shows "\<bar>fee_of g + tax_of g + net_of g - g\<bar> \<le> g / 2 ^ 52"
proof -
  define f t r n where "f = fee_of g" and "t = tax_of g" and "r = rest_of g" and "n = net_of g"
  note fb = fee_of_bounds [OF g, folded f_def] and tb = tax_of_bounds [OF g, folded f_def t_def]
    and rb = rest_of_bounds [OF g, folded f_def r_def]
  have e3: "\<bar>r - (g - f)\<bar> \<le> \<bar>g - f\<bar> / 2 ^ 53"
    using rnd_diff_error [OF g(1) fb(3)] by (simp add: r_def rest_of_def f_def)
  have e4: "\<bar>n - (r - t)\<bar> \<le> \<bar>r - t\<bar> / 2 ^ 53"
    using rnd_diff_error [OF rb(3) tb(3)] by (simp add: n_def net_of_def r_def t_def)
  have d3: "\<bar>g - f\<bar> / 2 ^ 53 \<le> g / 2 ^ 53" using fb(1,2) by (simp add: divide_right_mono)
  have d4: "\<bar>r - t\<bar> / 2 ^ 53 \<le> g / 2 ^ 53"
    using tb(1,2) rb(1,2) fb(1) by (simp add: divide_right_mono)
  have "\<bar>f + t + n - g\<bar> \<le> 2 * (g / 2 ^ 53)" using e3 e4 d3 d4 by linarith
  then show ?thesis by (simp add: f_def t_def n_def)
qed

section \<open>How net amounts compare\<close>

text \<open>
  From \<open>2^-1016\<close> upwards the net amount never decreases.  It is enough to compare an
  amount \<open>x\<close> with the binary64 value that follows it, \<open>x + 2^(expo x)\<close>.  Divided
  by \<open>2^(expo x)\<close>, the amount is an integer \<open>k\<close> with \<open>2^52 \<le> k < 2^53\<close>, and
  the four roundings become roundings in a format whose least exponent is at most
  \<open>-6\<close>.
\<close>

subsection \<open>Rounding to a grid\<close>

lemma rne_mono: "x \<le> y \<Longrightarrow> rne x \<le> rne y"
proof -
  assume xy: "x \<le> y"
  show ?thesis
  proof (cases "\<lfloor>x\<rfloor> < \<lfloor>y\<rfloor>")
    case True
    then show ?thesis using rne_cases [of x] rne_cases [of y] by auto
  next
    case False
    moreover have "\<lfloor>x\<rfloor> \<le> \<lfloor>y\<rfloor>" using xy by (rule floor_mono)
    ultimately have eq: "\<lfloor>x\<rfloor> = \<lfloor>y\<rfloor>" by simp
    then show ?thesis using xy by (auto simp add: rne_def Let_def)
  qed
qed

lemma rne_near:
  assumes "\<bar>x - of_int j\<bar> < 1 / 2"
  shows "rne x = j"
proof -
  have "\<bar>of_int (rne x) - x\<bar> \<le> 1 / 2" by (rule rne_error)
  with assms have "\<bar>(of_int (rne x) :: rat) - of_int j\<bar> < 1" by linarith
  then have "\<bar>(of_int (rne x - j) :: rat)\<bar> < of_int 1" by simp
  then have "\<bar>rne x - j\<bar> < 1" by (simp only: of_int_abs [symmetric] of_int_less_iff)
  then show ?thesis by simp
qed

lemma rne_tie: "rne (of_int a + 1 / 2) = (if even a then a else a + 1)"
proof -
  have "\<lfloor>(of_int a :: rat) + 1 / 2\<rfloor> = a" by (simp add: floor_unique)
  then show ?thesis by (simp add: rne_def Let_def)
qed

lemma rne_le_half: "rne x \<le> j \<Longrightarrow> x \<le> of_int j + 1 / 2"
proof (rule ccontr)
  assume a: "rne x \<le> j" and "\<not> x \<le> of_int j + 1 / 2"
  then have "of_int j + 1 / 2 < x" by simp
  moreover have "\<bar>of_int (rne x) - x\<bar> \<le> 1 / 2" by (rule rne_error)
  moreover have "(of_int (rne x) :: rat) \<le> of_int j" using a by (simp only: of_int_le_iff)
  ultimately show False by linarith
qed

lemma rne_ge_half: "j + 1 \<le> rne x \<Longrightarrow> of_int j + 1 / 2 \<le> x"
proof (rule ccontr)
  assume a: "j + 1 \<le> rne x" and "\<not> of_int j + 1 / 2 \<le> x"
  then have "x < of_int j + 1 / 2" by simp
  moreover have "\<bar>of_int (rne x) - x\<bar> \<le> 1 / 2" by (rule rne_error)
  moreover have "(of_int (j + 1) :: rat) \<le> of_int (rne x)" using a by (simp only: of_int_le_iff)
  ultimately show False by simp
qed

lemma rgrid_zero [simp]: "rgrid e 0 = 0"
  using rne_int [of 0] by (simp add: rgrid_def)

lemma rgrid_scale: "rgrid (E + e) (y * 2 powi e) = rgrid E y * 2 powi e"
  by (simp add: rgrid_def two_powi_add)

lemma rgrid_error: "\<bar>rgrid e x - x\<bar> \<le> 2 powi (e - 1)"
proof -
  define s :: rat where "s = 2 powi e"
  have s0: "0 < s" by (simp add: s_def)
  have "rgrid e x - x = (of_int (rne (x / s)) - x / s) * s"
    using s0 by (simp add: rgrid_def s_def left_diff_distrib)
  then have "\<bar>rgrid e x - x\<bar> = \<bar>of_int (rne (x / s)) - x / s\<bar> * s"
    using s0 by (simp add: abs_mult)
  also have "\<dots> \<le> 1 / 2 * s"
    using rne_error [of "x / s"] s0 by (intro mult_right_mono) simp_all
  also have "\<dots> = 2 powi (e - 1)" by (simp add: s_def two_powi_diff)
  finally show ?thesis .
qed

lemma rgrid_mono: "x \<le> y \<Longrightarrow> rgrid e x \<le> rgrid e y"
proof -
  assume "x \<le> y"
  then have "x / 2 powi e \<le> y / 2 powi e" by (simp add: divide_right_mono)
  then have "rne (x / 2 powi e) \<le> rne (y / 2 powi e)" by (rule rne_mono)
  then have "(of_int (rne (x / 2 powi e)) :: rat) \<le> of_int (rne (y / 2 powi e))"
    by (simp only: of_int_le_iff)
  then show ?thesis unfolding rgrid_def by (intro mult_right_mono) simp_all
qed

lemma rgrid_near:
  assumes "\<bar>x - of_int j * 2 powi e\<bar> < 2 powi (e - 1)"
  shows "rgrid e x = of_int j * 2 powi e"
proof -
  define s :: rat where "s = 2 powi e"
  have s0: "0 < s" by (simp add: s_def)
  have h: "(2::rat) powi (e - 1) = s / 2" by (simp add: s_def two_powi_diff)
  have "x / s - of_int j = (x - of_int j * s) / s" using s0 by (simp add: diff_divide_distrib)
  then have "\<bar>x / s - of_int j\<bar> = \<bar>x - of_int j * s\<bar> / s" using s0 by (simp add: abs_divide)
  also have "\<dots> < (s / 2) / s" using assms s0 unfolding h s_def [symmetric]
    by (intro divide_strict_right_mono) simp_all
  also have "\<dots> = 1 / 2" using s0 by simp
  finally have "rne (x / s) = j" by (rule rne_near)
  then show ?thesis by (simp add: rgrid_def s_def)
qed

lemma rnd_is_rnd_from: "rnd x = rnd_from (- 1074) x"
  by (simp add: rnd_alt rnd_from_def rgrid_def expo_def)

lemma ilog2_scale:
  assumes "y \<noteq> 0"
  shows "ilog2 (y * 2 powi e) = ilog2 y + e"
proof (rule ilog2_unique)
  note b = ilog2_bounds [OF assms]
  have "2 powi ilog2 y * 2 powi e \<le> \<bar>y\<bar> * (2::rat) powi e"
    using b(1) by (intro mult_right_mono) simp_all
  then show "2 powi (ilog2 y + e) \<le> \<bar>y * 2 powi e\<bar>" by (simp add: two_powi_add abs_mult)
  have "\<bar>y\<bar> * (2::rat) powi e < 2 powi (ilog2 y + 1) * 2 powi e"
    using b(2) by (intro mult_strict_right_mono) simp_all
  then show "\<bar>y * 2 powi e\<bar> < 2 powi (ilog2 y + e + 1)"
    using two_powi_add [of "ilog2 y + 1" e] by (simp add: abs_mult add.commute add.left_commute)
qed

lemma rnd_from_scale: "rnd_from e0 (y * 2 powi e) = rnd_from (e0 - e) y * 2 powi e"
proof (cases "y = 0")
  case True
  then show ?thesis by (simp add: rnd_from_def)
next
  case False
  have "max (ilog2 y + e - 52) e0 = max (ilog2 y - 52) (e0 - e) + e" by simp
  then show ?thesis
    unfolding rnd_from_def ilog2_scale [OF False] by (simp only: rgrid_scale)
qed

lemma fee_from_scale: "fee_from e0 (g * 2 powi e) = fee_from (e0 - e) g * 2 powi e"
proof -
  have "g * 2 powi e * feeRate = g * feeRate * 2 powi e" by simp
  then show ?thesis unfolding fee_from_def by (simp only: rnd_from_scale)
qed

lemma tax_from_scale: "tax_from e0 (g * 2 powi e) = tax_from (e0 - e) g * 2 powi e"
proof -
  have "fee_from (e0 - e) g * 2 powi e * gstRate = fee_from (e0 - e) g * gstRate * 2 powi e"
    by simp
  then show ?thesis unfolding tax_from_def fee_from_scale by (simp only: rnd_from_scale)
qed

lemma rest_from_scale: "rest_from e0 (g * 2 powi e) = rest_from (e0 - e) g * 2 powi e"
proof -
  have "g * 2 powi e - fee_from (e0 - e) g * 2 powi e = (g - fee_from (e0 - e) g) * 2 powi e"
    by (simp add: left_diff_distrib)
  then show ?thesis unfolding rest_from_def fee_from_scale by (simp only: rnd_from_scale)
qed

lemma net_from_scale: "net_from e0 (g * 2 powi e) = net_from (e0 - e) g * 2 powi e"
proof -
  have "rest_from (e0 - e) g * 2 powi e - tax_from (e0 - e) g * 2 powi e
      = (rest_from (e0 - e) g - tax_from (e0 - e) g) * 2 powi e"
    by (simp add: left_diff_distrib)
  then show ?thesis
    unfolding net_from_def rest_from_scale tax_from_scale by (simp only: rnd_from_scale)
qed

lemma net_of_is_net_from: "net_of g = net_from (- 1074) g"
  by (simp add: net_of_def rest_of_def tax_of_def fee_of_def net_from_def rest_from_def
      tax_from_def fee_from_def rnd_is_rnd_from)

lemma ilog2_mono:
  assumes "x \<noteq> 0" "\<bar>x\<bar> \<le> \<bar>y\<bar>"
  shows "ilog2 x \<le> ilog2 y"
proof -
  from ilog2_bounds(1) [OF assms(1)] assms(2) have "2 powi ilog2 x \<le> \<bar>y\<bar>" by simp
  then show ?thesis by (rule ilog2_ge)
qed

lemma rnd_from_mono:
  assumes "0 \<le> x" "x \<le> y"
  shows "rnd_from e0 x \<le> rnd_from e0 y"
proof (cases "x = 0")
  case True
  have "rgrid (max (ilog2 y - 52) e0) 0 \<le> rgrid (max (ilog2 y - 52) e0) y"
    using assms by (intro rgrid_mono) simp
  with True show ?thesis by (simp add: rnd_from_def)
next
  case False
  with assms have x0: "0 < x" and y0: "0 < y" by simp_all
  define ex ey where "ex = max (ilog2 x - 52) e0" and "ey = max (ilog2 y - 52) e0"
  have il: "ilog2 x \<le> ilog2 y" using False assms by (intro ilog2_mono) simp_all
  then have exy: "ex \<le> ey" by (simp add: ex_def ey_def)
  show ?thesis
  proof (cases "ex = ey")
    case True
    then show ?thesis
      using rgrid_mono [OF assms(2), of ey] by (simp add: rnd_from_def ex_def ey_def)
  next
    case False
    with exy have lt: "ex < ey" by simp
    then have ey: "ey = ilog2 y - 52" and ilt: "ilog2 x < ilog2 y"
      by (auto simp add: ex_def ey_def max_def split: if_splits)
    define B :: rat where "B = 2 powi ilog2 y"
    have y0': "y \<noteq> 0" using y0 by simp
    have xB: "x \<le> B"
    proof -
      have "x < 2 powi (ilog2 x + 1)" using ilog2_bounds(2) [of x] x0 by simp
      also have "\<dots> \<le> 2 powi ilog2 y" using ilt by (intro power_int_increasing) simp_all
      finally show ?thesis by (simp add: B_def)
    qed
    have By: "B \<le> y" using ilog2_bounds(1) [OF y0'] y0 by (simp add: B_def)
    have "ex \<le> ilog2 y" using lt ey by simp
    from grid_coarser [OF this, of 1] obtain j where j: "B = of_int j * 2 powi ex"
      by (auto simp add: B_def)
    have "rgrid ex x \<le> rgrid ex B" using xB by (rule rgrid_mono)
    also have "rgrid ex B = B" unfolding j by (rule rgrid_near) simp
    finally have 1: "rnd_from e0 x \<le> B" by (simp add: rnd_from_def ex_def)
    have "B = 2 powi 52 * 2 powi ey" using two_powi_add [of 52 ey] by (simp add: B_def ey)
    then have k: "B = of_int (2 ^ 52) * 2 powi ey" by simp
    have "rgrid ey B \<le> rgrid ey y" using By by (rule rgrid_mono)
    moreover have "rgrid ey B = B" unfolding k by (rule rgrid_near) simp
    ultimately have 2: "B \<le> rnd_from e0 y" by (simp add: rnd_from_def ey_def)
    from 1 2 show ?thesis by simp
  qed
qed

lemma rnd_from_known:
  assumes "2 powi n \<le> \<bar>x\<bar>" "\<bar>x\<bar> < 2 powi (n + 1)"
  shows "rnd_from e0 x = rgrid (max (n - 52) e0) x"
  using ilog2_unique [OF assms] by (simp add: rnd_from_def)

lemma rnd_from_error:
  assumes "\<bar>x\<bar> < 2 powi (n + 1)" "e0 \<le> n - 52"
  shows "\<bar>rnd_from e0 x - x\<bar> \<le> 2 powi (n - 53)"
proof (cases "x = 0")
  case True
  then show ?thesis by (simp add: rnd_from_def)
next
  case False
  from ilog2_le [OF False assms(1)] assms(2) have "max (ilog2 x - 52) e0 - 1 \<le> n - 53" by simp
  then have "(2::rat) powi (max (ilog2 x - 52) e0 - 1) \<le> 2 powi (n - 53)"
    by (intro power_int_increasing) simp_all
  with rgrid_error [of "max (ilog2 x - 52) e0" x] show ?thesis by (simp add: rnd_from_def)
qed

lemma rnd_from_multiple:
  assumes "2 powi n \<le> \<bar>x\<bar>"
  shows "\<exists>j. rnd_from e0 x = of_int j * 2 powi (n - 52)"
proof -
  have "n - 52 \<le> max (ilog2 x - 52) e0" using ilog2_ge [OF assms] by simp
  from grid_coarser [OF this] show ?thesis unfolding rnd_from_def rgrid_def .
qed

lemma rgrid_0: "rgrid 0 x = of_int (rne x)"
  by (simp add: rgrid_def)

lemma rgrid_m1: "rgrid (- 1) x = of_int (rne (2 * x)) / 2"
  by (simp add: rgrid_def power_int_minus mult.commute)

lemma rnd_from_top:
  assumes "2 ^ 52 \<le> x" "x < 2 ^ 53" "e0 \<le> 0"
  shows "rnd_from e0 x = of_int (rne x)"
proof -
  have "rnd_from e0 x = rgrid (max (52 - 52) e0) x"
    using assms(1,2) by (intro rnd_from_known) simp_all
  then show ?thesis using assms(3) by (simp add: rgrid_0 max_def)
qed

lemma rnd_from_below:
  assumes "2 ^ 51 \<le> x" "x < 2 ^ 52" "e0 \<le> - 1"
  shows "rnd_from e0 x = of_int (rne (2 * x)) / 2"
proof -
  have "rnd_from e0 x = rgrid (max (51 - 52) e0) x"
    using assms(1,2) by (intro rnd_from_known) simp_all
  then show ?thesis using assms(3) by (simp add: rgrid_m1 max_def)
qed

lemma rnd_from_near:
  assumes x0: "x \<noteq> 0" and g: "g = of_int j * 2 powi eg"
    and eg: "max (ilog2 x - 52) e0 \<le> eg" and near: "\<bar>x - g\<bar> \<le> \<bar>x\<bar> / 2 ^ 54"
  shows "rnd_from e0 x = g"
proof -
  define E where "E = max (ilog2 x - 52) e0"
  from grid_coarser [OF eg, of j] obtain i where i: "g = of_int i * 2 powi E"
    unfolding g E_def by blast
  have "\<bar>x\<bar> / 2 ^ 54 < 2 powi (ilog2 x + 1) / 2 ^ 54"
    using ilog2_bounds(2) [OF x0] by (intro divide_strict_right_mono) simp_all
  also have "\<dots> = 2 powi (ilog2 x + 1 - 54)" by (simp only: two_powi_diff) simp
  also have "\<dots> \<le> 2 powi (E - 1)" by (intro power_int_increasing) (simp_all add: E_def)
  finally have "\<bar>x - of_int i * 2 powi E\<bar> < 2 powi (E - 1)" using near i by simp
  then have "rgrid E x = of_int i * 2 powi E" by (rule rgrid_near)
  then show ?thesis by (simp add: rnd_from_def E_def i)
qed

lemma crossing:
  assumes lo: "2 ^ 51 \<le> y'" and le: "y' \<le> y" and hi: "y < 2 ^ 53" and e0: "e0 \<le> - 1"
    and lt: "rnd_from e0 y' < rnd_from e0 y"
  shows "(\<exists>a. y' \<le> of_int a / 2 + 1 / 4 \<and> of_int a / 2 + 1 / 4 \<le> y
              \<and> (y' = of_int a / 2 + 1 / 4 \<longrightarrow> even a) \<and> (y = of_int a / 2 + 1 / 4 \<longrightarrow> odd a))
       \<or> (\<exists>j. y' \<le> of_int j + 1 / 2 \<and> of_int j + 1 / 2 \<le> y)"
proof (cases "2 ^ 52 \<le> y'")
  case True
  then have r': "rnd_from e0 y' = of_int (rne y')" and r: "rnd_from e0 y = of_int (rne y)"
    using le hi e0 by (simp_all add: rnd_from_top)
  from lt have "rne y' < rne y" unfolding r r' by (simp only: of_int_less_iff)
  then have "rne y' + 1 \<le> rne y" by simp
  then have "of_int (rne y') + 1 / 2 \<le> y" by (rule rne_ge_half)
  moreover have "y' \<le> of_int (rne y') + 1 / 2" by (rule rne_le_half) simp
  ultimately show ?thesis by blast
next
  case False
  then have y'52: "y' < 2 ^ 52" by simp
  define a where "a = rne (2 * y')"
  have r': "rnd_from e0 y' = of_int a / 2" using lo y'52 e0 by (simp add: rnd_from_below a_def)
  have ya: "2 * y' \<le> of_int a + 1 / 2" unfolding a_def by (rule rne_le_half) simp
  show ?thesis
  proof (cases "y < 2 ^ 52")
    case True
    have r: "rnd_from e0 y = of_int (rne (2 * y)) / 2"
      using lo le True e0 by (simp add: rnd_from_below)
    from lt have "(of_int a :: rat) < of_int (rne (2 * y))" unfolding r r' by simp
    then have "a < rne (2 * y)" by (simp only: of_int_less_iff)
    then have up: "a + 1 \<le> rne (2 * y)" by simp
    then have ay: "of_int a + 1 / 2 \<le> 2 * y" by (rule rne_ge_half)
    have t1: "y' = of_int a / 2 + 1 / 4 \<longrightarrow> even a"
    proof
      assume "y' = of_int a / 2 + 1 / 4"
      then have "2 * y' = of_int a + 1 / 2" by simp
      then have "rne (of_int a + 1 / 2) = a" using a_def by simp
      then show "even a" by (simp add: rne_tie split: if_splits)
    qed
    have t2: "y = of_int a / 2 + 1 / 4 \<longrightarrow> odd a"
    proof
      assume "y = of_int a / 2 + 1 / 4"
      then have "2 * y = of_int a + 1 / 2" by simp
      then have "a + 1 \<le> rne (of_int a + 1 / 2)" using up by simp
      then show "odd a" by (simp add: rne_tie split: if_splits)
    qed
    have "y' \<le> of_int a / 2 + 1 / 4" "of_int a / 2 + 1 / 4 \<le> y" using ya ay by simp_all
    with t1 t2 show ?thesis by blast
  next
    case False
    then have y52: "2 ^ 52 \<le> y" by simp
    have r: "rnd_from e0 y = of_int (rne y)" using y52 hi e0 by (simp add: rnd_from_top)
    have "2 * y' \<le> of_int (2 ^ 53)" using y'52 by simp
    then have a53: "a \<le> 2 ^ 53" unfolding a_def by (rule rne_le)
    show ?thesis
    proof (cases "a = 2 ^ 53")
      case True
      from lt have "(of_int (2 ^ 52) :: rat) < of_int (rne y)" unfolding r r' True by simp
      then have "2 ^ 52 < rne y" by (simp only: of_int_less_iff)
      then have "2 ^ 52 + 1 \<le> rne y" by simp
      then have "of_int (2 ^ 52) + 1 / 2 \<le> y" by (rule rne_ge_half)
      moreover have "y' \<le> of_int (2 ^ 52) + 1 / 2" using y'52 by simp
      ultimately show ?thesis by blast
    next
      case False
      with a53 have "a \<le> 2 ^ 53 - 1" by simp
      then have "(of_int a :: rat) \<le> of_int (2 ^ 53 - 1)" by (simp only: of_int_le_iff)
      then have P: "(of_int a :: rat) / 2 + 1 / 4 < 2 ^ 52" by simp
      have t1: "y' = of_int a / 2 + 1 / 4 \<longrightarrow> even a"
      proof
        assume "y' = of_int a / 2 + 1 / 4"
        then have "2 * y' = of_int a + 1 / 2" by simp
        then have "rne (of_int a + 1 / 2) = a" using a_def by simp
        then show "even a" by (simp add: rne_tie split: if_splits)
      qed
      have t2: "y = of_int a / 2 + 1 / 4 \<longrightarrow> odd a" using P y52 by simp
      have "y' \<le> of_int a / 2 + 1 / 4" "of_int a / 2 + 1 / 4 \<le> y" using ya P y52 by simp_all
      with t1 t2 show ?thesis by blast
    qed
  qed
qed

lemma same_rest:
  assumes lo: "2 ^ 51 \<le> z" and gap: "z + 15 / 16 \<le> z'" and hi: "z' < 2 ^ 53"
    and e0: "e0 \<le> - 1" and le: "rnd_from e0 z' \<le> rnd_from e0 z"
  shows "\<exists>\<rho>. rnd_from e0 z = of_int \<rho> \<and> rnd_from e0 z' = of_int \<rho>
     \<and> of_int \<rho> - 1 / 2 \<le> z \<and> z' \<le> of_int \<rho> + 1 / 2
     \<and> (z = of_int \<rho> - 1 / 2 \<longrightarrow> even \<rho>) \<and> (z' = of_int \<rho> + 1 / 2 \<longrightarrow> even \<rho>)"
proof -
  have z52: "2 ^ 52 \<le> z"
  proof (rule ccontr)
    assume "\<not> 2 ^ 52 \<le> z"
    then have zlt: "z < 2 ^ 52" by simp
    have "rnd_from e0 z = of_int (rne (2 * z)) / 2" using lo zlt e0 by (simp add: rnd_from_below)
    moreover have "\<bar>of_int (rne (2 * z)) - 2 * z\<bar> \<le> 1 / 2" by (rule rne_error)
    ultimately have rz: "rnd_from e0 z \<le> z + 1 / 4" by linarith
    have "rnd_from e0 z' \<ge> z' - 1 / 2"
    proof (cases "z' < 2 ^ 52")
      case True
      have "rnd_from e0 z' = of_int (rne (2 * z')) / 2"
        using lo gap True e0 by (simp add: rnd_from_below)
      moreover have "\<bar>of_int (rne (2 * z')) - 2 * z'\<bar> \<le> 1 / 2" by (rule rne_error)
      ultimately show ?thesis by linarith
    next
      case False
      then have "rnd_from e0 z' = of_int (rne z')" using hi e0 by (simp add: rnd_from_top)
      moreover have "\<bar>of_int (rne z') - z'\<bar> \<le> 1 / 2" by (rule rne_error)
      ultimately show ?thesis by linarith
    qed
    with rz gap le show False by linarith
  qed
  then have z'52: "2 ^ 52 \<le> z'" using gap by linarith
  have zhi: "z < 2 ^ 53" using gap hi by linarith
  have r: "rnd_from e0 z = of_int (rne z)" using z52 zhi e0 by (simp add: rnd_from_top)
  have r': "rnd_from e0 z' = of_int (rne z')" using z'52 hi e0 by (simp add: rnd_from_top)
  have "rne z \<le> rne z'" using gap by (intro rne_mono) linarith
  moreover from le have "rne z' \<le> rne z" unfolding r r' by (simp only: of_int_le_iff)
  ultimately have eq: "rne z' = rne z" by simp
  define \<rho> where "\<rho> = rne z"
  have e1: "\<bar>of_int \<rho> - z\<bar> \<le> 1 / 2" unfolding \<rho>_def by (rule rne_error)
  have e2: "\<bar>of_int \<rho> - z'\<bar> \<le> 1 / 2" unfolding \<rho>_def eq [symmetric] by (rule rne_error)
  have t1: "z = of_int \<rho> - 1 / 2 \<longrightarrow> even \<rho>"
  proof
    assume "z = of_int \<rho> - 1 / 2"
    then have "z = of_int (\<rho> - 1) + 1 / 2" by simp
    then have "rne (of_int (\<rho> - 1) + 1 / 2) = \<rho>" using \<rho>_def by simp
    then show "even \<rho>" unfolding rne_tie by (simp split: if_splits)
  qed
  have t2: "z' = of_int \<rho> + 1 / 2 \<longrightarrow> even \<rho>"
  proof
    assume "z' = of_int \<rho> + 1 / 2"
    then have "rne (of_int \<rho> + 1 / 2) = \<rho>" using \<rho>_def eq by simp
    then show "even \<rho>" unfolding rne_tie by (simp split: if_splits)
  qed
  from e1 e2 have b: "of_int \<rho> - 1 / 2 \<le> z" "z' \<le> of_int \<rho> + 1 / 2" by linarith+
  from r r' eq b t1 t2 show ?thesis unfolding \<rho>_def [symmetric]
    by (intro exI [of _ \<rho>]) simp
qed

subsection \<open>From an amount to the next one\<close>

text \<open>
  In the scaled format the fee of \<open>k\<close> is within \<open>1/64\<close> of \<open>k * feeRate\<close> and the
  tax within \<open>1/128\<close> of the fee times \<open>gstRate\<close>.  If the differences
  \<open>k - fee\<close> of \<open>k\<close> and of \<open>k + 1\<close> round to different values, these are at least
  \<open>1/2\<close> apart, which is more than the tax grows.  If they round to the same integer
  \<open>\<rho>\<close>, then with \<open>m = k - \<rho>\<close> the number \<open>50 m + 25\<close> is \<open>k\<close> or
  \<open>k + 1\<close>, the fee of that number is exactly \<open>m + 1/2\<close>, and \<open>\<rho>\<close> is even,
  being the result of a tie.  A rounding boundary of the net amount between the two
  differences \<open>\<rho> - tax\<close> can then only be \<open>\<rho> - (18 m + 9) / 100\<close>; the tax of
  \<open>m + 1/2\<close> is exactly \<open>(18 m + 9) / 100\<close>, so one of the two differences lies on
  that boundary, and the parity of \<open>m\<close> sends its tie to the side of the other.
\<close>

lemma fee_from_error:
  assumes "e0 \<le> - 6" "2 ^ 52 \<le> g" "g \<le> 2 ^ 53"
  shows "\<bar>fee_from e0 g - g * feeRate\<bar> \<le> 1 / 64"
proof -
  have "\<bar>g * feeRate\<bar> < 2 powi (47 + 1)" using assms(2,3) by (simp add: feeRate_def abs_if)
  from rnd_from_error [OF this, of e0] assms(1) show ?thesis
    by (simp add: fee_from_def power_int_minus)
qed

lemma tax_step_error:
  assumes "e0 \<le> - 6" "0 \<le> f" "f \<le> 2 ^ 48"
  shows "\<bar>rnd_from e0 (f * gstRate) - f * gstRate\<bar> \<le> 1 / 128"
proof -
  have "\<bar>f * gstRate\<bar> < 2 powi (46 + 1)" using assms(2,3) by (simp add: gstRate_def abs_if)
  from rnd_from_error [OF this, of e0] assms(1) show ?thesis
    by (simp add: power_int_minus)
qed

lemma half_grid_gap:
  fixes r r' :: rat
  assumes "r = of_int i * 2 powi (51 - 52)" "r' = of_int j * 2 powi (51 - 52)" "r < r'"
  shows "r + 1 / 2 \<le> r'"
proof -
  have r: "r = of_int i / 2" and r': "r' = of_int j / 2" using assms(1,2) by (simp_all add: power_int_minus)
  from assms(3) have "(of_int i :: rat) < of_int j" unfolding r r' by simp
  then have "i < j" by (simp only: of_int_less_iff)
  then have "i + 1 \<le> j" by simp
  then have "(of_int (i + 1) :: rat) \<le> of_int j" by (simp only: of_int_le_iff)
  then show ?thesis unfolding r r' by simp
qed

lemma step_ranges:
  assumes e0: "e0 \<le> - 6" and g: "2 ^ 52 \<le> g" "g \<le> 2 ^ 53"
  shows "g * feeRate - 1 / 64 \<le> fee_from e0 g" and "fee_from e0 g \<le> g * feeRate + 1 / 64"
    and "fee_from e0 g * gstRate - 1 / 128 \<le> tax_from e0 g"
    and "tax_from e0 g \<le> fee_from e0 g * gstRate + 1 / 128"
proof -
  from fee_from_error [OF assms]
  show f: "g * feeRate - 1 / 64 \<le> fee_from e0 g" "fee_from e0 g \<le> g * feeRate + 1 / 64"
    by linarith+
  have "0 \<le> fee_from e0 g" "fee_from e0 g \<le> 2 ^ 48"
    using f g by (simp_all add: feeRate_def)
  from tax_step_error [OF e0 this]
  show "fee_from e0 g * gstRate - 1 / 128 \<le> tax_from e0 g"
    "tax_from e0 g \<le> fee_from e0 g * gstRate + 1 / 128"
    unfolding tax_from_def by linarith+
qed

lemma step_monotone:
  assumes g: "0 \<le> g" "g \<le> g'"
  shows "fee_from e0 g \<le> fee_from e0 g'" and "tax_from e0 g \<le> tax_from e0 g'"
proof -
  have 1: "0 \<le> g * feeRate" "g * feeRate \<le> g' * feeRate"
    using g rate_bounds(1) by (simp_all add: mult_right_mono)
  then show f: "fee_from e0 g \<le> fee_from e0 g'" unfolding fee_from_def by (rule rnd_from_mono)
  have "rnd_from e0 0 \<le> rnd_from e0 (g * feeRate)" using 1(1) by (intro rnd_from_mono) simp_all
  then have f0: "0 \<le> fee_from e0 g" by (simp add: fee_from_def rnd_from_def)
  have "0 \<le> fee_from e0 g * gstRate" "fee_from e0 g * gstRate \<le> fee_from e0 g' * gstRate"
    using f f0 rate_bounds(3) by (simp_all add: mult_right_mono)
  then show "tax_from e0 g \<le> tax_from e0 g'" unfolding tax_from_def by (rule rnd_from_mono)
qed

lemma tax_at_half:
  fixes m :: int
  assumes e0: "e0 \<le> - 6" and m: "0 \<le> m" "50 * m < 2 ^ 53"
    and Q: "100 * (of_int \<rho> - of_int a / 2 - 1 / 4) = 18 * (of_int m :: rat) + 9"
  shows "rnd_from e0 ((of_int m + 1 / 2) * gstRate) = of_int \<rho> - of_int a / 2 - 1 / 4"
proof (rule rnd_from_near [where j = "4 * \<rho> - 2 * a - 1" and eg = "- 2"])
  define M :: rat where "M = of_int m + 1 / 2"
  have m0: "(0::rat) \<le> of_int m" using m(1) by simp
  have "(of_int (50 * m) :: rat) < of_int (2 ^ 53)" using m(2) by (simp only: of_int_less_iff)
  then have m1: "(of_int m :: rat) < 2 ^ 53 / 50" by simp
  show "(of_int m + 1 / 2) * gstRate \<noteq> 0" using m0 by (simp add: gstRate_def)
  show "of_int \<rho> - of_int a / 2 - 1 / 4 = (of_int (4 * \<rho> - 2 * a - 1) :: rat) * 2 powi (- 2)"
    by (simp add: power_int_minus field_simps)
  have "\<bar>(of_int m + 1 / 2) * gstRate\<bar> < 2 powi 47"
    using m0 m1 by (simp add: gstRate_def abs_if)
  then have "ilog2 ((of_int m + 1 / 2) * gstRate) < 47"
    using \<open>(of_int m + 1 / 2) * gstRate \<noteq> 0\<close> by (intro ilog2_le)
  then show "max (ilog2 ((of_int m + 1 / 2) * gstRate) - 52) e0 \<le> - 2" using e0 by simp
  have "of_int \<rho> - of_int a / 2 - 1 / 4 = (18 * (of_int m :: rat) + 9) / 100" using Q by simp
  then show "\<bar>(of_int m + 1 / 2) * gstRate - (of_int \<rho> - of_int a / 2 - 1 / 4)\<bar>
      \<le> \<bar>(of_int m + 1 / 2) * gstRate\<bar> / 2 ^ 54"
    using m0 by (simp add: gstRate_def abs_if distrib_right add_divide_distrib diff_divide_distrib)
qed

lemma no_whole_midpoint_even:
  fixes m w :: int
  assumes "18 * m + 7 < 100 * w - 50" "100 * w - 50 < 18 * m + 10" "even m"
  shows False
proof -
  from assms have "100 * w - 50 = 18 * m + 8 \<or> 100 * w - 50 = 18 * m + 9" by linarith
  then show False
  proof
    assume "100 * w - 50 = 18 * m + 8"
    then have "50 * w - 29 = 9 * m" by linarith
    moreover have "odd (50 * w - 29)" by simp
    moreover have "even (9 * m)" using assms(3) by simp
    ultimately show False by metis
  next
    assume "100 * w - 50 = 18 * m + 9"
    moreover have "even (100 * w - 50)" by simp
    moreover have "odd (18 * m + 9)" by simp
    ultimately show False by metis
  qed
qed

lemma no_whole_midpoint_odd:
  fixes m w :: int
  assumes "18 * m + 8 < 100 * w - 50" "100 * w - 50 < 18 * m + 11" "odd m"
  shows False
proof -
  from assms have "100 * w - 50 = 18 * m + 9 \<or> 100 * w - 50 = 18 * m + 10" by linarith
  then show False
  proof
    assume "100 * w - 50 = 18 * m + 9"
    moreover have "even (100 * w - 50)" by simp
    moreover have "odd (18 * m + 9)" by simp
    ultimately show False by metis
  next
    assume "100 * w - 50 = 18 * m + 10"
    then have "50 * w - 30 = 9 * m" by linarith
    moreover have "even (50 * w - 30)" by simp
    moreover have "odd (9 * m)" using assms(3) by simp
    ultimately show False by metis
  qed
qed

lemma half_midpoint_below:
  fixes m \<rho> a :: int
  assumes "18 * m + 7 < 100 * \<rho> - 50 * a - 25" "100 * \<rho> - 50 * a - 25 < 18 * m + 10"
  shows "100 * \<rho> - 50 * a - 25 = 18 * m + 9"
proof -
  from assms have "100 * \<rho> - 50 * a - 25 = 18 * m + 8 \<or> 100 * \<rho> - 50 * a - 25 = 18 * m + 9"
    by linarith
  moreover have "odd (100 * \<rho> - 50 * a - 25)" by simp
  moreover have "even (18 * m + 8)" by simp
  ultimately show ?thesis by metis
qed

lemma half_midpoint_above:
  fixes m \<rho> a :: int
  assumes "18 * m + 8 < 100 * \<rho> - 50 * a - 25" "100 * \<rho> - 50 * a - 25 < 18 * m + 11"
  shows "100 * \<rho> - 50 * a - 25 = 18 * m + 9"
proof -
  from assms have "100 * \<rho> - 50 * a - 25 = 18 * m + 9 \<or> 100 * \<rho> - 50 * a - 25 = 18 * m + 10"
    by linarith
  moreover have "odd (100 * \<rho> - 50 * a - 25)" by simp
  moreover have "even (18 * m + 10)" by simp
  ultimately show ?thesis by metis
qed

lemma tie_parity_24:
  fixes m a :: int
  assumes "100 * (49 * m + 24) - 50 * a - 25 = 18 * m + 9" "even a" "even m"
  shows False
proof -
  from assms(1) have "4900 * m + 2400 - 50 * a - 25 = 18 * m + 9" by simp
  then have "2441 * m + 1183 = 25 * a" by linarith
  moreover have "odd (2441 * m + 1183)" using assms(3) by simp
  moreover have "even (25 * a)" using assms(2) by simp
  ultimately show False by metis
qed

lemma tie_parity_25:
  fixes m a :: int
  assumes "100 * (49 * m + 25) - 50 * a - 25 = 18 * m + 9" "odd a" "odd m"
  shows False
proof -
  from assms(1) have "4900 * m + 2500 - 50 * a - 25 = 18 * m + 9" by simp
  then have "2441 * m + 1233 = 25 * a" by linarith
  moreover have "even (2441 * m + 1233)" using assms(3) by simp
  moreover have "odd (25 * a)" using assms(2) by simp
  ultimately show False by metis
qed

lemma cross_24:
  fixes m :: int and f t t' :: rat
  assumes e0: "e0 \<le> - 6" and m: "2 ^ 52 \<le> 50 * m + 24" "50 * m + 24 < 2 ^ 53" and ev: "even m"
    and f: "(50 * of_int m + 24) * feeRate - 1 / 64 \<le> f"
    and t: "f * gstRate - 1 / 128 \<le> t"
    and tt: "t \<le> t'"
    and t': "t' = rnd_from e0 ((of_int m + 1 / 2) * gstRate)"
  shows "rnd_from e0 (of_int (49 * m + 24) - t) \<le> rnd_from e0 (of_int (49 * m + 24) - t')"
proof (rule ccontr)
  assume "\<not> ?thesis"
  then have lt: "rnd_from e0 (of_int (49 * m + 24) - t') < rnd_from e0 (of_int (49 * m + 24) - t)"
    by simp
  define \<rho> where "\<rho> = 49 * m + 24"
  have \<rho>r: "(of_int \<rho> :: rat) = 49 * of_int m + 24" by (simp add: \<rho>_def)
  have "(of_int (2 ^ 52) :: rat) \<le> of_int (50 * m + 24)" using m(1) by (simp only: of_int_le_iff)
  then have m1: "(2 ^ 52 - 24) / 50 \<le> (of_int m :: rat)" by simp
  have "(of_int (50 * m + 24) :: rat) < of_int (2 ^ 53)" using m(2) by (simp only: of_int_less_iff)
  then have m2: "(of_int m :: rat) < (2 ^ 53 - 24) / 50" by simp
  have m0: "0 \<le> m" "50 * m < 2 ^ 53" using m by simp_all
  have "\<bar>rnd_from e0 ((of_int m + 1 / 2) * gstRate) - (of_int m + 1 / 2) * gstRate\<bar> \<le> 1 / 128"
    using m1 m2 by (intro tax_step_error [OF e0]) simp_all
  then have t'u: "t' \<le> (of_int m + 1 / 2) * gstRate + 1 / 128" unfolding t' by linarith
  have tl: "18 * of_int m + 7 < 100 * t"
    using f t m1 m2 unfolding feeRate_def gstRate_def
    by (simp add: distrib_right add_divide_distrib diff_divide_distrib)
  have tu: "100 * t' < 18 * of_int m + 10"
    using t'u m1 m2 unfolding gstRate_def
    by (simp add: distrib_right add_divide_distrib diff_divide_distrib)
  have lo: "2 ^ 51 \<le> of_int \<rho> - t'" using tu m1 unfolding \<rho>r by simp
  have hi: "of_int \<rho> - t < 2 ^ 53" using tl m2 unfolding \<rho>r by simp
  have le: "of_int \<rho> - t' \<le> of_int \<rho> - t" using tt by simp
  have e1: "e0 \<le> - 1" using e0 by simp
  from crossing [OF lo le hi e1 lt [folded \<rho>_def]] show False
  proof (elim disjE exE conjE)
    fix j :: int
    assume "of_int \<rho> - t' \<le> of_int j + 1 / 2" "of_int j + 1 / 2 \<le> of_int \<rho> - t"
    with tl tu have "(of_int (18 * m + 7) :: rat) < of_int (100 * (\<rho> - j) - 50)"
      "(of_int (100 * (\<rho> - j) - 50) :: rat) < of_int (18 * m + 10)"
      by simp_all
    then have "18 * m + 7 < 100 * (\<rho> - j) - 50" "100 * (\<rho> - j) - 50 < 18 * m + 10"
      by (simp_all only: of_int_less_iff)
    then show False using ev by (rule no_whole_midpoint_even)
  next
    fix a :: int
    assume a: "of_int \<rho> - t' \<le> of_int a / 2 + 1 / 4" "of_int a / 2 + 1 / 4 \<le> of_int \<rho> - t"
      and tie: "of_int \<rho> - t' = of_int a / 2 + 1 / 4 \<longrightarrow> even a"
    from a tl tu have "(of_int (18 * m + 7) :: rat) < of_int (100 * \<rho> - 50 * a - 25)"
      "(of_int (100 * \<rho> - 50 * a - 25) :: rat) < of_int (18 * m + 10)"
      by simp_all
    then have "18 * m + 7 < 100 * \<rho> - 50 * a - 25" "100 * \<rho> - 50 * a - 25 < 18 * m + 10"
      by (simp_all only: of_int_less_iff)
    then have eq: "100 * \<rho> - 50 * a - 25 = 18 * m + 9" by (rule half_midpoint_below)
    then have "(of_int (100 * \<rho> - 50 * a - 25) :: rat) = of_int (18 * m + 9)" by (simp only:)
    then have "100 * (of_int \<rho> - of_int a / 2 - 1 / 4) = 18 * (of_int m :: rat) + 9" by simp
    from tax_at_half [OF e0 m0 this] have "t' = of_int \<rho> - of_int a / 2 - 1 / 4" by (simp only: t')
    then have "of_int \<rho> - t' = of_int a / 2 + 1 / 4" by simp
    with tie have "even a" by simp
    with eq [unfolded \<rho>_def] show False using ev by (rule tie_parity_24)
  qed
qed

lemma cross_25:
  fixes m :: int and f' t t' :: rat
  assumes e0: "e0 \<le> - 6" and m: "2 ^ 52 \<le> 50 * m + 25" "50 * m + 25 < 2 ^ 53" and od: "odd m"
    and f': "f' \<le> (50 * of_int m + 26) * feeRate + 1 / 64"
    and t': "t' \<le> f' * gstRate + 1 / 128"
    and tt: "t \<le> t'"
    and t: "t = rnd_from e0 ((of_int m + 1 / 2) * gstRate)"
  shows "rnd_from e0 (of_int (49 * m + 25) - t) \<le> rnd_from e0 (of_int (49 * m + 25) - t')"
proof (rule ccontr)
  assume "\<not> ?thesis"
  then have lt: "rnd_from e0 (of_int (49 * m + 25) - t') < rnd_from e0 (of_int (49 * m + 25) - t)"
    by simp
  define \<rho> where "\<rho> = 49 * m + 25"
  have \<rho>r: "(of_int \<rho> :: rat) = 49 * of_int m + 25" by (simp add: \<rho>_def)
  have "(of_int (2 ^ 52) :: rat) \<le> of_int (50 * m + 25)" using m(1) by (simp only: of_int_le_iff)
  then have m1: "(2 ^ 52 - 25) / 50 \<le> (of_int m :: rat)" by simp
  have "(of_int (50 * m + 25) :: rat) < of_int (2 ^ 53)" using m(2) by (simp only: of_int_less_iff)
  then have m2: "(of_int m :: rat) < (2 ^ 53 - 25) / 50" by simp
  have m0: "0 \<le> m" "50 * m < 2 ^ 53" using m by simp_all
  have "\<bar>rnd_from e0 ((of_int m + 1 / 2) * gstRate) - (of_int m + 1 / 2) * gstRate\<bar> \<le> 1 / 128"
    using m1 m2 by (intro tax_step_error [OF e0]) simp_all
  then have tl0: "(of_int m + 1 / 2) * gstRate - 1 / 128 \<le> t" unfolding t by linarith
  have tl: "18 * of_int m + 8 < 100 * t"
    using tl0 m1 m2 unfolding gstRate_def
    by (simp add: distrib_right add_divide_distrib diff_divide_distrib)
  have tu: "100 * t' < 18 * of_int m + 11"
    using f' t' m1 m2 unfolding feeRate_def gstRate_def
    by (simp add: distrib_right add_divide_distrib diff_divide_distrib)
  have lo: "2 ^ 51 \<le> of_int \<rho> - t'" using tu m1 unfolding \<rho>r by simp
  have hi: "of_int \<rho> - t < 2 ^ 53" using tl m2 unfolding \<rho>r by simp
  have le: "of_int \<rho> - t' \<le> of_int \<rho> - t" using tt by simp
  have e1: "e0 \<le> - 1" using e0 by simp
  from crossing [OF lo le hi e1 lt [folded \<rho>_def]] show False
  proof (elim disjE exE conjE)
    fix j :: int
    assume "of_int \<rho> - t' \<le> of_int j + 1 / 2" "of_int j + 1 / 2 \<le> of_int \<rho> - t"
    with tl tu have "(of_int (18 * m + 8) :: rat) < of_int (100 * (\<rho> - j) - 50)"
      "(of_int (100 * (\<rho> - j) - 50) :: rat) < of_int (18 * m + 11)"
      by simp_all
    then have "18 * m + 8 < 100 * (\<rho> - j) - 50" "100 * (\<rho> - j) - 50 < 18 * m + 11"
      by (simp_all only: of_int_less_iff)
    then show False using od by (rule no_whole_midpoint_odd)
  next
    fix a :: int
    assume a: "of_int \<rho> - t' \<le> of_int a / 2 + 1 / 4" "of_int a / 2 + 1 / 4 \<le> of_int \<rho> - t"
      and tie: "of_int \<rho> - t = of_int a / 2 + 1 / 4 \<longrightarrow> odd a"
    from a tl tu have "(of_int (18 * m + 8) :: rat) < of_int (100 * \<rho> - 50 * a - 25)"
      "(of_int (100 * \<rho> - 50 * a - 25) :: rat) < of_int (18 * m + 11)"
      by simp_all
    then have "18 * m + 8 < 100 * \<rho> - 50 * a - 25" "100 * \<rho> - 50 * a - 25 < 18 * m + 11"
      by (simp_all only: of_int_less_iff)
    then have eq: "100 * \<rho> - 50 * a - 25 = 18 * m + 9" by (rule half_midpoint_above)
    then have "(of_int (100 * \<rho> - 50 * a - 25) :: rat) = of_int (18 * m + 9)" by (simp only:)
    then have "100 * (of_int \<rho> - of_int a / 2 - 1 / 4) = 18 * (of_int m :: rat) + 9" by simp
    from tax_at_half [OF e0 m0 this] have "t = of_int \<rho> - of_int a / 2 - 1 / 4" by (simp only: t)
    then have "of_int \<rho> - t = of_int a / 2 + 1 / 4" by simp
    with tie have "odd a" by simp
    with eq [unfolded \<rho>_def] show False using od by (rule tie_parity_25)
  qed
qed

lemma fee_at_half:
  fixes m :: int
  assumes e0: "e0 \<le> - 6" and m: "0 \<le> m" "50 * m + 25 \<le> 2 ^ 53"
  shows "fee_from e0 (50 * of_int m + 25) = of_int m + 1 / 2"
  unfolding fee_from_def
proof (rule rnd_from_near [where j = "2 * m + 1" and eg = "- 1"])
  have m0: "(0::rat) \<le> of_int m" using m(1) by simp
  have "(of_int (50 * m + 25) :: rat) \<le> of_int (2 ^ 53)" using m(2) by (simp only: of_int_le_iff)
  then have m1: "(of_int m :: rat) \<le> (2 ^ 53 - 25) / 50" by simp
  show nz: "(50 * of_int m + 25) * feeRate \<noteq> 0" using m0 by (simp add: feeRate_def)
  show "of_int m + 1 / 2 = (of_int (2 * m + 1) :: rat) * 2 powi (- 1)"
    by (simp add: power_int_minus field_simps)
  have "\<bar>(50 * of_int m + 25) * feeRate\<bar> < 2 powi 48"
    using m0 m1 by (simp add: feeRate_def abs_if distrib_right add_divide_distrib)
  then have "ilog2 ((50 * of_int m + 25) * feeRate) < 48" using nz by (intro ilog2_le)
  then show "max (ilog2 ((50 * of_int m + 25) * feeRate) - 52) e0 \<le> - 1" using e0 by simp
  show "\<bar>(50 * of_int m + 25) * feeRate - (of_int m + 1 / 2)\<bar>
      \<le> \<bar>(50 * of_int m + 25) * feeRate\<bar> / 2 ^ 54"
    using m0 by (simp add: feeRate_def abs_if distrib_right add_divide_distrib diff_divide_distrib)
qed

lemma step_core:
  assumes e0: "e0 \<le> - 6" and k: "2 ^ 52 \<le> k" "k < 2 ^ 53"
  shows "net_from e0 (of_int k) \<le> net_from e0 (of_int k + 1)"
proof -
  define K :: rat where "K = of_int k"
  define f f' t t' r r' where "f = fee_from e0 K" and "f' = fee_from e0 (K + 1)"
    and "t = tax_from e0 K" and "t' = tax_from e0 (K + 1)"
    and "r = rest_from e0 K" and "r' = rest_from e0 (K + 1)"
  define z z' where "z = K - f" and "z' = K + 1 - f'"
  have "(of_int (2 ^ 52) :: rat) \<le> of_int k" using k(1) by (simp only: of_int_le_iff)
  then have K1: "2 ^ 52 \<le> K" by (simp add: K_def)
  have "k + 1 \<le> 2 ^ 53" using k(2) by simp
  then have "(of_int (k + 1) :: rat) \<le> of_int (2 ^ 53)" by (simp only: of_int_le_iff)
  then have K2: "K + 1 \<le> 2 ^ 53" by (simp add: K_def)
  have K3: "K \<le> 2 ^ 53" "2 ^ 52 \<le> K + 1" "0 \<le> K" "K \<le> K + 1" using K1 K2 by simp_all
  note a = step_ranges [OF e0 K1 K3(1), folded f_def t_def]
  note b = step_ranges [OF e0 K3(2) K2, folded f'_def t'_def]
  note mono = step_monotone [OF K3(3,4), of e0, folded f_def f'_def t_def t'_def]
  have e1: "e0 \<le> - 1" using e0 by simp
  have zlo: "2 ^ 51 \<le> z"
    using a(2) K1 unfolding z_def feeRate_def
    by (simp add: distrib_right add_divide_distrib diff_divide_distrib)
  have gap: "z + 15 / 16 \<le> z'"
    using a(1) b(2) unfolding z_def z'_def feeRate_def
    by (simp add: distrib_right add_divide_distrib diff_divide_distrib)
  have zhi: "z' < 2 ^ 53"
    using b(1) K1 K2 unfolding z'_def feeRate_def
    by (simp add: distrib_right add_divide_distrib diff_divide_distrib)
  have r: "r = rnd_from e0 z" and r': "r' = rnd_from e0 z'"
    by (simp_all add: r_def r'_def rest_from_def z_def z'_def f_def f'_def)
  have n: "net_from e0 K = rnd_from e0 (r - t)" and n': "net_from e0 (K + 1) = rnd_from e0 (r' - t')"
    by (simp_all add: net_from_def r_def r'_def t_def t'_def)
  have tdiff: "t' - t \<le> 1 / 2"
    using a(1,3) b(2,4) unfolding feeRate_def gstRate_def
    by (simp add: distrib_right add_divide_distrib diff_divide_distrib)
  have "net_from e0 K \<le> net_from e0 (K + 1)"
  proof (cases "r < r'")
    case True
    have "2 powi 51 \<le> \<bar>z\<bar>" "2 powi 51 \<le> \<bar>z'\<bar>" using zlo gap by simp_all
    from rnd_from_multiple [OF this(1), of e0] rnd_from_multiple [OF this(2), of e0]
    obtain i j where "r = of_int i * 2 powi (51 - 52)" "r' = of_int j * 2 powi (51 - 52)"
      unfolding r r' by blast
    from half_grid_gap [OF this True] have rr: "r + 1 / 2 \<le> r'" .
    have "\<bar>z\<bar> < 2 powi (52 + 1)" using zlo gap zhi by simp
    from rnd_from_error [OF this, of e0] e0 have "\<bar>r - z\<bar> \<le> 1 / 2"
      by (simp add: r power_int_minus)
    then have rl: "z - 1 / 2 \<le> r" by linarith
    have "t \<le> 2 ^ 48"
      using a(2,4) K3(1) unfolding feeRate_def gstRate_def
      by (simp add: distrib_right add_divide_distrib diff_divide_distrib)
    with rl zlo have "0 \<le> r - t" by simp
    moreover have "r - t \<le> r' - t'" using rr tdiff by linarith
    ultimately show ?thesis unfolding n n' by (rule rnd_from_mono)
  next
    case False
    then have "rnd_from e0 z' \<le> rnd_from e0 z" by (simp add: r r')
    from same_rest [OF zlo gap zhi e1 this] obtain \<rho> where
      \<rho>: "r = of_int \<rho>" "r' = of_int \<rho>" "of_int \<rho> - 1 / 2 \<le> z" "z' \<le> of_int \<rho> + 1 / 2"
      and tie: "z = of_int \<rho> - 1 / 2 \<longrightarrow> even \<rho>" "z' = of_int \<rho> + 1 / 2 \<longrightarrow> even \<rho>"
      unfolding r r' by blast
    define m where "m = k - \<rho>"
    have mr: "(of_int m :: rat) = K - of_int \<rho>" by (simp add: m_def K_def)
    have fm: "f \<le> of_int m + 1 / 2" "of_int m + 1 / 2 \<le> f'"
      using \<rho>(3,4) unfolding z_def z'_def mr by linarith+
    have "K - 1 < 50 * of_int m + 25" "50 * of_int m + 25 < K + 2"
      using fm a(1) b(2) K1 K2 unfolding feeRate_def
      by (simp_all add: distrib_right add_divide_distrib diff_divide_distrib)
    then have "(of_int (k - 1) :: rat) < of_int (50 * m + 25)"
      "(of_int (50 * m + 25) :: rat) < of_int (k + 2)"
      by (simp_all add: K_def)
    then have "k - 1 < 50 * m + 25" "50 * m + 25 < k + 2" by (simp_all only: of_int_less_iff)
    then consider "k = 50 * m + 24" | "k = 50 * m + 25" by linarith
    then show ?thesis
    proof cases
      case 1
      then have Kr: "K = 50 * of_int m + 24" by (simp add: K_def)
      have \<rho>m: "\<rho> = 49 * m + 24" using 1 by (simp add: m_def)
      have m0: "0 \<le> m" "50 * m + 25 \<le> 2 ^ 53" using k 1 by simp_all
      have "K + 1 = 50 * of_int m + 25" by (simp add: Kr)
      then have f'v: "f' = of_int m + 1 / 2"
        unfolding f'_def by (simp only: fee_at_half [OF e0 m0])
      then have "z' = of_int \<rho> + 1 / 2" by (simp add: z'_def Kr \<rho>m)
      with tie(2) have "even \<rho>" by simp
      then have ev: "even m" by (simp add: \<rho>m)
      have "rnd_from e0 (of_int (49 * m + 24) - t) \<le> rnd_from e0 (of_int (49 * m + 24) - t')"
      proof (rule cross_24 [OF e0 _ _ ev _ _ mono(2)])
        show "2 ^ 52 \<le> 50 * m + 24" "50 * m + 24 < 2 ^ 53" using k 1 by simp_all
        show "(50 * of_int m + 24) * feeRate - 1 / 64 \<le> f" using a(1) by (simp add: Kr)
        show "f * gstRate - 1 / 128 \<le> t" by (rule a(3))
        show "t' = rnd_from e0 ((of_int m + 1 / 2) * gstRate)"
          by (simp add: t'_def tax_from_def f'v [unfolded f'_def])
      qed
      then show ?thesis unfolding n n' \<rho> \<rho>m .
    next
      case 2
      then have Kr: "K = 50 * of_int m + 25" by (simp add: K_def)
      have \<rho>m: "\<rho> = 49 * m + 25" using 2 by (simp add: m_def)
      have m0: "0 \<le> m" "50 * m + 25 \<le> 2 ^ 53" using k 2 by simp_all
      have fv: "f = of_int m + 1 / 2"
        unfolding f_def Kr by (rule fee_at_half [OF e0 m0])
      then have "z = of_int \<rho> - 1 / 2" by (simp add: z_def Kr \<rho>m)
      with tie(1) have "even \<rho>" by simp
      then have od: "odd m" by (simp add: \<rho>m)
      have "rnd_from e0 (of_int (49 * m + 25) - t) \<le> rnd_from e0 (of_int (49 * m + 25) - t')"
      proof (rule cross_25 [OF e0 _ _ od _ _ mono(2)])
        show "2 ^ 52 \<le> 50 * m + 25" "50 * m + 25 < 2 ^ 53" using k 2 by simp_all
        show "f' \<le> (50 * of_int m + 26) * feeRate + 1 / 64"
          using b(2) by (simp add: Kr add.commute)
        show "t' \<le> f' * gstRate + 1 / 128" by (rule b(4))
        show "t = rnd_from e0 ((of_int m + 1 / 2) * gstRate)"
          by (simp add: t_def tax_from_def fv [unfolded f_def])
      qed
      then show ?thesis unfolding n n' \<rho> \<rho>m .
    qed
  qed
  then show ?thesis by (simp add: K_def)
qed

subsection \<open>From an amount to any larger one\<close>

lemma normal_mantissa:
  assumes x: "binary64 x" and big: "2 powi (- 1016) \<le> x"
  shows "\<exists>k. x = of_int k * 2 powi expo x \<and> 2 ^ 52 \<le> k \<and> k < 2 ^ 53 \<and> - 1068 \<le> expo x"
proof -
  have "(0::rat) < 2 powi (- 1016)" by simp
  with big have x0: "0 < x" by linarith
  then have xn: "x \<noteq> 0" by simp
  have "2 powi (- 1016) \<le> \<bar>x\<bar>" using big x0 by simp
  then have il: "- 1016 \<le> ilog2 x" by (rule ilog2_ge)
  then have ex: "expo x = ilog2 x - 52" by (simp add: expo_def)
  from binary64D [OF x] obtain k where k: "x = of_int k * 2 powi expo x" ..
  then have q: "x / 2 powi expo x = of_int k" by (rule grid_div)
  have "(2::rat) powi ilog2 x = 2 powi 52 * 2 powi expo x"
    using two_powi_add [of 52 "expo x"] by (simp add: ex)
  then have lo: "2 ^ 52 * 2 powi expo x \<le> x" using ilog2_bounds(1) [OF xn] x0 by simp
  have "(2::rat) powi (ilog2 x + 1) = 2 powi 53 * 2 powi expo x"
    using two_powi_add [of 53 "expo x"] by (simp add: ex add.commute)
  then have hi: "x < 2 ^ 53 * 2 powi expo x" using ilog2_bounds(2) [OF xn] x0 by simp
  from lo have "2 ^ 52 \<le> x / 2 powi expo x" by (simp add: pos_le_divide_eq)
  then have "(of_int (2 ^ 52) :: rat) \<le> of_int k" unfolding q by simp
  then have k1: "2 ^ 52 \<le> k" by (simp only: of_int_le_iff)
  from hi have "x / 2 powi expo x < 2 ^ 53" by (simp add: pos_divide_less_eq)
  then have "(of_int k :: rat) < of_int (2 ^ 53)" unfolding q by simp
  then have k2: "k < 2 ^ 53" by (simp only: of_int_less_iff)
  from k k1 k2 il ex show ?thesis by auto
qed

lemma net_of_step:
  assumes x: "binary64 x" and big: "2 powi (- 1016) \<le> x"
  shows "net_of x \<le> net_of (x + 2 powi expo x)"
proof -
  from normal_mantissa [OF assms] obtain k where
    k: "x = of_int k * 2 powi expo x" "2 ^ 52 \<le> k" "k < 2 ^ 53" and e: "- 1068 \<le> expo x"
    by blast
  define e where "e = expo x"
  have xk: "x = of_int k * 2 powi e" using k(1) by (simp add: e_def)
  have x1: "x + 2 powi e = (of_int k + 1) * 2 powi e" by (simp add: xk distrib_right)
  have e0: "- 1074 - e \<le> - 6" using e by (simp add: e_def)
  have "net_from (- 1074 - e) (of_int k) * 2 powi e \<le> net_from (- 1074 - e) (of_int k + 1) * 2 powi e"
    using step_core [OF e0 k(2,3)] by (intro mult_right_mono) simp_all
  then have "net_of (of_int k * 2 powi e) \<le> net_of ((of_int k + 1) * 2 powi e)"
    by (simp only: net_of_is_net_from net_from_scale)
  then show ?thesis unfolding e_def [symmetric] x1 xk [symmetric] .
qed

lemma successor:
  assumes a: "binary64 a" and b: "binary64 b" and big: "2 powi (- 1016) \<le> a" and lt: "a < b"
  shows "a + 2 powi expo a \<le> b" and "binary64 (a + 2 powi expo a)"
proof -
  from normal_mantissa [OF a big] obtain k where
    k: "a = of_int k * 2 powi expo a" "2 ^ 52 \<le> k" "k < 2 ^ 53" and e: "- 1068 \<le> expo a"
    by blast
  define e where "e = expo a"
  have ak: "a = of_int k * 2 powi e" using k(1) by (simp add: e_def)
  have "(0::rat) < 2 powi (- 1016)" by simp
  with big have a0: "0 < a" by linarith
  then have "ilog2 a \<le> ilog2 b" using lt by (intro ilog2_mono) simp_all
  then have "e \<le> expo b" by (simp add: e_def expo_def)
  from binary64_grid [OF b this] obtain j where j: "b = of_int j * 2 powi e" ..
  have "of_int k * 2 powi e < of_int j * (2::rat) powi e" using lt unfolding ak j .
  then have "(of_int k :: rat) < of_int j" by (simp only: mult_less_cancel_right_pos two_powi_pos)
  then have "k < j" by (simp only: of_int_less_iff)
  then have "k + 1 \<le> j" by simp
  then have "(of_int (k + 1) :: rat) \<le> of_int j" by (simp only: of_int_le_iff)
  then have "of_int (k + 1) * 2 powi e \<le> of_int j * (2::rat) powi e"
    by (intro mult_right_mono) simp_all
  then show le: "a + 2 powi expo a \<le> b" unfolding e_def [symmetric] j by (simp add: ak distrib_right)
  have s: "a + 2 powi expo a = of_int (k + 1) * 2 powi e"
    unfolding e_def [symmetric] by (simp add: ak distrib_right)
  have "0 < a + 2 powi expo a" using a0 by (simp add: add_pos_pos)
  then have "\<bar>a + 2 powi expo a\<bar> < 2 ^ 1024" using le binary64_bound [OF b] by simp
  then show "binary64 (a + 2 powi expo a)"
    using s k(2,3) e by (intro binary64I2 [of _ "k + 1" e]) (simp_all add: e_def)
qed

lemma net_of_chain:
  assumes "binary64 a" "binary64 b" "2 powi (- 1016) \<le> a" "a \<le> b"
  shows "net_of a \<le> net_of b"
  using assms
proof (induction "nat \<lfloor>(b - a) / 2 powi (- 1074)\<rfloor>" arbitrary: a rule: less_induct)
  case less
  show ?case
  proof (cases "a = b")
    case True
    then show ?thesis by simp
  next
    case False
    with less.prems have lt: "a < b" by simp
    define s :: rat where "s = 2 powi expo a"
    define u :: rat where "u = 2 powi (- 1074)"
    have u0: "0 < u" by (simp add: u_def)
    note suc = successor [OF less.prems(1,2,3) lt, folded s_def]
    have "u \<le> s" unfolding u_def s_def by (intro power_int_increasing) (simp_all add: expo_ge)
    then have "1 \<le> s / u" using u0 by (simp add: pos_le_divide_eq)
    moreover have "(b - (a + s)) / u = (b - a) / u - s / u"
      by (simp add: diff_divide_distrib add_divide_distrib)
    ultimately have "(b - (a + s)) / u \<le> (b - a) / u - 1" by linarith
    then have "\<lfloor>(b - (a + s)) / u\<rfloor> \<le> \<lfloor>(b - a) / u - 1\<rfloor>" by (rule floor_mono)
    moreover have "0 \<le> (b - (a + s)) / u" using suc(1) u0 by simp
    then have "\<lfloor>0::rat\<rfloor> \<le> \<lfloor>(b - (a + s)) / u\<rfloor>" by (rule floor_mono)
    moreover define i i' where "i = \<lfloor>(b - a) / u\<rfloor>" and "i' = \<lfloor>(b - (a + s)) / u\<rfloor>"
    ultimately have "i' \<le> i - 1" "0 \<le> i'" by simp_all
    then have "nat i' < nat i" by linarith
    then have dec: "nat \<lfloor>(b - (a + s)) / u\<rfloor> < nat \<lfloor>(b - a) / u\<rfloor>"
      by (simp only: i_def i'_def)
    have "0 < s" by (simp add: s_def)
    with less.prems(3) have big: "2 powi (- 1016) \<le> a + s" by simp
    have "net_of a \<le> net_of (a + s)"
      unfolding s_def using less.prems(1,3) by (rule net_of_step)
    also have "net_of (a + s) \<le> net_of b"
      using dec suc(2) less.prems(2) big suc(1) unfolding u_def by (rule less.hyps)
    finally show ?thesis .
  qed
qed

subsection \<open>Amounts that are far apart\<close>

text \<open>
  Below \<open>2^-1016\<close> the net amount can decrease only between amounts that are close
  together.  Every rounding in the breakdown of an amount up to \<open>b\<close> is off by at most
  half the spacing \<open>2^(expo b)\<close> of the binary64 values at \<open>b\<close>, so an amount that
  is five such spacings below \<open>b\<close> has a smaller net amount, whatever its size.
\<close>

lemma expo_mono:
  assumes "x \<noteq> 0" "\<bar>x\<bar> \<le> \<bar>y\<bar>"
  shows "expo x \<le> expo y"
  using ilog2_mono [OF assms] by (simp add: expo_def)

lemma rnd_error_within:
  assumes "\<bar>x\<bar> \<le> \<bar>b\<bar>"
  shows "\<bar>rnd x - x\<bar> \<le> 2 powi expo b / 2"
proof (cases "x = 0")
  case True
  then show ?thesis by simp
next
  case False
  from expo_mono [OF False assms] have "(2::rat) powi expo x \<le> 2 powi expo b"
    by (intro power_int_increasing) simp_all
  with rnd_error [of x] show ?thesis by simp
qed

lemma breakdown_errors:
  assumes g: "binary64 g" "0 \<le> g" and gb: "g \<le> b"
  shows "\<bar>fee_of g - g * feeRate\<bar> \<le> 2 powi expo b / 2"
    and "\<bar>tax_of g - fee_of g * gstRate\<bar> \<le> 2 powi expo b / 2"
    and "\<bar>rest_of g - (g - fee_of g)\<bar> \<le> 2 powi expo b / 2"
    and "\<bar>net_of g - (rest_of g - tax_of g)\<bar> \<le> 2 powi expo b / 2"
proof -
  note f = fee_of_bounds [OF g] and t = tax_of_bounds [OF g] and r = rest_of_bounds [OF g]
  have b0: "\<bar>b\<bar> = b" using g(2) gb by simp
  have "g * feeRate \<le> g * 1" using g(2) rate_bounds(2) by (intro mult_left_mono) simp_all
  moreover have "0 \<le> g * feeRate" using g(2) rate_bounds(1) by simp
  ultimately have "\<bar>g * feeRate\<bar> \<le> \<bar>b\<bar>" using gb b0 by simp
  then show "\<bar>fee_of g - g * feeRate\<bar> \<le> 2 powi expo b / 2"
    unfolding fee_of_def by (rule rnd_error_within)
  have "fee_of g * gstRate \<le> fee_of g * 1"
    using f(1) rate_bounds(4) by (intro mult_left_mono) simp_all
  moreover have "0 \<le> fee_of g * gstRate" using f(1) rate_bounds(3) by simp
  ultimately have "\<bar>fee_of g * gstRate\<bar> \<le> \<bar>b\<bar>" using gb b0 f(2) by simp
  then show "\<bar>tax_of g - fee_of g * gstRate\<bar> \<le> 2 powi expo b / 2"
    unfolding tax_of_def by (rule rnd_error_within)
  have "\<bar>g - fee_of g\<bar> \<le> \<bar>b\<bar>" using f(1,2) gb b0 by simp
  then show "\<bar>rest_of g - (g - fee_of g)\<bar> \<le> 2 powi expo b / 2"
    unfolding rest_of_def by (rule rnd_error_within)
  have "\<bar>rest_of g - tax_of g\<bar> \<le> \<bar>b\<bar>" using t(1,2) r(1,2) gb b0 by simp
  then show "\<bar>net_of g - (rest_of g - tax_of g)\<bar> \<le> 2 powi expo b / 2"
    unfolding net_of_def by (rule rnd_error_within)
qed

lemma net_of_far_apart:
  assumes a: "binary64 a" "0 \<le> a" and b: "binary64 b" and far: "a + 5 * 2 powi expo b \<le> b"
  shows "net_of a \<le> net_of b"
proof -
  define s :: rat where "s = 2 powi expo b"
  have s0: "0 < s" by (simp add: s_def)
  have ab: "a \<le> b" using far s0 unfolding s_def [symmetric] by linarith
  then have b0: "0 \<le> b" using a(2) by simp
  note ea = breakdown_errors [OF a ab, folded s_def]
  note eb = breakdown_errors [OF b b0 order_refl, folded s_def]
  define fa ta ra na where "fa = fee_of a" and "ta = tax_of a" and "ra = rest_of a" and "na = net_of a"
  define fb tb rb nb where "fb = fee_of b" and "tb = tax_of b" and "rb = rest_of b" and "nb = net_of b"
  note ea' = ea [folded fa_def ta_def ra_def na_def]
  note eb' = eb [folded fb_def tb_def rb_def nb_def]
  have far': "a + 5 * s \<le> b" using far by (simp add: s_def)
  have ua: "a * feeRate - s / 2 \<le> fa" "fa * gstRate - s / 2 \<le> ta"
    "ra \<le> a - fa + s / 2" "na \<le> ra - ta + s / 2"
    using ea' by linarith+
  have ub: "fb \<le> b * feeRate + s / 2" "tb \<le> fb * gstRate + s / 2"
    "b - fb - s / 2 \<le> rb" "rb - tb - s / 2 \<le> nb"
    using eb' by linarith+
  have "na \<le> nb"
    using far' ua ub s0 unfolding feeRate_def gstRate_def
    by (simp add: distrib_right add_divide_distrib diff_divide_distrib)
  then show ?thesis by (simp add: na_def nb_def)
qed

subsection \<open>Amounts that are not neighbours\<close>

text \<open>
  What remains are two amounts below \<open>2^-1016\<close> that are fewer than ten spacings
  apart.  Scaled by the spacing \<open>2^(expo a)\<close> at the smaller one they become whole
  numbers \<open>k\<close> and \<open>k'\<close>, in a format whose least exponent is between \<open>-5\<close> and
  \<open>0\<close>.  When that exponent is \<open>0\<close> the subtractions are exact and the fee and the
  tax are whole numbers; otherwise \<open>k\<close> has 53 bits and the fee and the tax are
  rounded to a quarter or better.  Either way the net amount of \<open>k + 2\<close> is not
  below that of \<open>k\<close>, so the net amount can decrease only from a binary64 value to
  the very next one.
\<close>

lemma rnd_from_error_grid:
  assumes "\<bar>x\<bar> < 2 powi (n + 1)"
  shows "\<bar>rnd_from e0 x - x\<bar> \<le> 2 powi (max (n - 52) e0 - 1)"
proof (cases "x = 0")
  case True
  then show ?thesis by (simp add: rnd_from_def)
next
  case False
  from ilog2_le [OF False assms] have "max (ilog2 x - 52) e0 - 1 \<le> max (n - 52) e0 - 1" by simp
  then have "(2::rat) powi (max (ilog2 x - 52) e0 - 1) \<le> 2 powi (max (n - 52) e0 - 1)"
    by (intro power_int_increasing) simp_all
  with rgrid_error [of "max (ilog2 x - 52) e0" x] show ?thesis by (simp add: rnd_from_def)
qed

lemma rnd_from_0:
  assumes "\<bar>x\<bar> < 2 ^ 53"
  shows "rnd_from 0 x = of_int (rne x)"
proof (cases "x = 0")
  case True
  then show ?thesis using rne_int [of 0] by (simp add: rnd_from_def)
next
  case False
  from assms have "\<bar>x\<bar> < 2 powi 53" by simp
  with False have "ilog2 x < 53" by (rule ilog2_le)
  then have "max (ilog2 x - 52) 0 = 0" by simp
  then show ?thesis by (simp add: rnd_from_def rgrid_0)
qed

lemma rnd_from_0_int:
  assumes "\<bar>of_int z :: rat\<bar> < 2 ^ 53"
  shows "rnd_from 0 (of_int z) = of_int z"
  using assms by (simp add: rnd_from_0)

lemma rne_step:
  assumes "x \<le> y" "y < x + 1"
  shows "rne x \<le> rne y" and "(of_int (rne y) :: rat) \<le> of_int (rne x) + 1"
proof -
  show "rne x \<le> rne y" using assms(1) by (rule rne_mono)
  have "\<bar>of_int (rne x) - x\<bar> \<le> 1 / 2" "\<bar>of_int (rne y) - y\<bar> \<le> 1 / 2" by (rule rne_error)+
  with assms(2) have "(of_int (rne y) :: rat) < of_int (rne x) + 2" by linarith
  then have "(of_int (rne y) :: rat) < of_int (rne x + 2)" by simp
  then have "rne y < rne x + 2" by (simp only: of_int_less_iff)
  then have "rne y \<le> rne x + 1" by simp
  then have "(of_int (rne y) :: rat) \<le> of_int (rne x + 1)" by (simp only: of_int_le_iff)
  then show "(of_int (rne y) :: rat) \<le> of_int (rne x) + 1" by simp
qed

lemma rate_windows:
  assumes "0 \<le> x"
  shows "x * feeRate \<le> x / 48" and "0 \<le> x * feeRate"
    and "x * gstRate \<le> x / 4" and "0 \<le> x * gstRate" and "x / 64 \<le> x * feeRate"
  using assms by (simp_all add: feeRate_def gstRate_def)

lemma exact_format_step:
  fixes k k' :: int
  assumes k: "0 \<le> k" "k + 2 \<le> k'" "k' \<le> k + 10" "k' \<le> 2 ^ 53 + 10"
  shows "net_from 0 (of_int k) \<le> net_from 0 (of_int k')"
proof -
  define K K' :: rat where "K = of_int k" and "K' = of_int k'"
  define F F' :: rat where "F = of_int (rne (K * feeRate))" and "F' = of_int (rne (K' * feeRate))"
  define T T' :: rat where "T = of_int (rne (F * gstRate))" and "T' = of_int (rne (F' * gstRate))"
  have K0: "0 \<le> K" using k(1) by (simp add: K_def)
  have "(of_int (k + 2) :: rat) \<le> of_int k'" using k(2) by (simp only: of_int_le_iff)
  then have K2: "K + 2 \<le> K'" by (simp add: K_def K'_def)
  have "(of_int k' :: rat) \<le> of_int (k + 10)" using k(3) by (simp only: of_int_le_iff)
  then have K10: "K' \<le> K + 10" by (simp add: K_def K'_def)
  have "(of_int k' :: rat) \<le> of_int (2 ^ 53 + 10)" using k(4) by (simp only: of_int_le_iff)
  then have Ktop: "K' \<le> 9007199254741002" by (simp add: K'_def)
  have K'0: "0 \<le> K'" using K0 K2 by linarith
  note wK = rate_windows(1,2,5) [OF K0] and wK' = rate_windows(1,2,5) [OF K'0]
  have eF: "F \<le> K * feeRate + 1 / 2" "K * feeRate - 1 / 2 \<le> F"
    using rne_error [of "K * feeRate"] unfolding F_def by linarith+
  have eF': "F' \<le> K' * feeRate + 1 / 2" "K' * feeRate - 1 / 2 \<le> F'"
    using rne_error [of "K' * feeRate"] unfolding F'_def by linarith+
  have "0 \<le> rne (K * feeRate)" using wK(2) by (intro rne_ge) simp
  then have F0: "0 \<le> F" by (simp add: F_def)
  have "K * feeRate \<le> K' * feeRate" "K' * feeRate < K * feeRate + 1"
    using K2 K10 by (simp_all add: feeRate_def distrib_right add_divide_distrib)
  from rne_step [OF this] have dF: "F \<le> F'" "F' \<le> F + 1"
    by (simp_all add: F_def F'_def)
  have F'0: "0 \<le> F'" using F0 dF by linarith
  note wF = rate_windows(3,4) [OF F0] and wF' = rate_windows(3,4) [OF F'0]
  have eT: "T \<le> F * gstRate + 1 / 2" "F * gstRate - 1 / 2 \<le> T"
    using rne_error [of "F * gstRate"] unfolding T_def by linarith+
  have eT': "T' \<le> F' * gstRate + 1 / 2" "F' * gstRate - 1 / 2 \<le> T'"
    using rne_error [of "F' * gstRate"] unfolding T'_def by linarith+
  have "F * gstRate \<le> F' * gstRate" "F' * gstRate < F * gstRate + 1"
    using dF by (simp_all add: gstRate_def distrib_right add_divide_distrib)
  from rne_step [OF this] have dT: "T \<le> T'" "T' \<le> T + 1"
    by (simp_all add: T_def T'_def)
  have Kt: "K \<le> 9007199254741002" using K2 Ktop by linarith
  have b1: "\<bar>K * feeRate\<bar> < 2 ^ 53" "\<bar>K' * feeRate\<bar> < 2 ^ 53"
    using wK wK' Kt Ktop by simp_all
  have b2: "\<bar>F * gstRate\<bar> < 2 ^ 53" "\<bar>F' * gstRate\<bar> < 2 ^ 53"
    using wF wF' eF(1) eF'(1) wK wK' Kt Ktop by simp_all
  have f1: "fee_from 0 K = F" and f2: "fee_from 0 K' = F'"
    unfolding fee_from_def F_def F'_def using b1 by (simp_all add: rnd_from_0)
  have t1: "tax_from 0 K = T" and t2: "tax_from 0 K' = T'"
    unfolding tax_from_def f1 f2 T_def T'_def using b2 by (simp_all add: rnd_from_0)
  have z1: "K - F = of_int (k - rne (K * feeRate))" and z2: "K' - F' = of_int (k' - rne (K' * feeRate))"
    by (simp_all add: K_def K'_def F_def F'_def)
  have "\<bar>K - F\<bar> < 2 ^ 53" using eF wK Kt K0 by simp
  from rnd_from_0_int [OF this [unfolded z1]] have r1: "rest_from 0 K = K - F"
    unfolding rest_from_def f1 z1 .
  have "\<bar>K' - F'\<bar> < 2 ^ 53" using eF' wK' Ktop K'0 by simp
  from rnd_from_0_int [OF this [unfolded z2]] have r2: "rest_from 0 K' = K' - F'"
    unfolding rest_from_def f2 z2 .
  have y1: "K - F - T = of_int (k - rne (K * feeRate) - rne (F * gstRate))"
    and y2: "K' - F' - T' = of_int (k' - rne (K' * feeRate) - rne (F' * gstRate))"
    by (simp_all add: z1 z2 T_def T'_def)
  have "\<bar>K - F - T\<bar> < 2 ^ 53" using eF eT wF wK Kt K0 by simp
  from rnd_from_0_int [OF this [unfolded y1]] have n1: "net_from 0 K = K - F - T"
    unfolding net_from_def r1 t1 y1 .
  have "\<bar>K' - F' - T'\<bar> < 2 ^ 53" using eF' eT' wF' wK' Ktop K'0 by simp
  from rnd_from_0_int [OF this [unfolded y2]] have n2: "net_from 0 K' = K' - F' - T'"
    unfolding net_from_def r2 t2 y2 .
  have "K - F - T \<le> K' - F' - T'" using K2 dF(2) dT(2) by linarith
  then have "net_from 0 K \<le> net_from 0 K'" by (simp only: n1 n2)
  then show ?thesis by (simp only: K_def K'_def)
qed

lemma quarter_error:
  assumes "\<bar>x\<bar> < 2 powi (n + 1)" "n \<le> 51" "e0 \<le> - 1"
  shows "\<bar>rnd_from e0 x - x\<bar> \<le> 1 / 4"
proof -
  have "max (n - 52) e0 - 1 \<le> - 2" using assms(2,3) by simp
  then have "(2::rat) powi (max (n - 52) e0 - 1) \<le> 2 powi (- 2)"
    by (intro power_int_increasing) simp_all
  with rnd_from_error_grid [OF assms(1), of e0] show ?thesis by (simp add: power_int_minus)
qed

lemma half_error:
  assumes "\<bar>x\<bar> < 2 powi (52 + 1)" "e0 \<le> 0"
  shows "\<bar>rnd_from e0 x - x\<bar> \<le> 1 / 2"
proof -
  have "max (52 - 52) e0 = 0" using assms(2) by simp
  with rnd_from_error_grid [OF assms(1), of e0] show ?thesis by (simp add: power_int_minus)
qed

lemma coarse_format_step:
  assumes e0: "e0 \<le> - 1" and g: "2 ^ 52 \<le> g" "g < 2 ^ 53" "g + 2 \<le> g'" "g' \<le> g + 10"
  shows "net_from e0 g \<le> net_from e0 g'"
proof -
  define f f' t t' where "f = fee_from e0 g" and "f' = fee_from e0 g'"
    and "t = tax_from e0 g" and "t' = tax_from e0 g'"
  define z z' where "z = g - f" and "z' = g' - f'"
  define r r' where "r = rnd_from e0 z" and "r' = rnd_from e0 z'"
  have gn: "4503599627370496 \<le> g" "g < 9007199254740992" using g(1,2) by simp_all
  have g0: "0 \<le> g" "0 \<le> g'" using gn g(3) by linarith+
  note wg = rate_windows(1,2,5) [OF g0(1)] and wg' = rate_windows(1,2,5) [OF g0(2)]
  have "\<bar>g * feeRate\<bar> < 281474976710656" "\<bar>g' * feeRate\<bar> < 281474976710656"
    using wg wg' gn g(3,4) by linarith+
  then have "\<bar>g * feeRate\<bar> < 2 powi (47 + 1)" "\<bar>g' * feeRate\<bar> < 2 powi (47 + 1)"
    by simp_all
  from quarter_error [OF this(1) _ e0] quarter_error [OF this(2) _ e0]
  have ef: "f \<le> g * feeRate + 1 / 4" "g * feeRate - 1 / 4 \<le> f"
    and ef': "f' \<le> g' * feeRate + 1 / 4" "g' * feeRate - 1 / 4 \<le> f'"
    unfolding f_def f'_def fee_from_def by linarith+
  have f0: "0 \<le> f" "0 \<le> f'" using ef(2) ef'(2) wg(3) wg'(3) gn g(3) by linarith+
  note wf = rate_windows(3,4) [OF f0(1)] and wf' = rate_windows(3,4) [OF f0(2)]
  have "\<bar>f * gstRate\<bar> < 70368744177664" "\<bar>f' * gstRate\<bar> < 70368744177664"
    using wf wf' ef(1) ef'(1) wg wg' gn g(3,4) by linarith+
  then have "\<bar>f * gstRate\<bar> < 2 powi (45 + 1)" "\<bar>f' * gstRate\<bar> < 2 powi (45 + 1)"
    by simp_all
  from quarter_error [OF this(1) _ e0] quarter_error [OF this(2) _ e0]
  have et: "t \<le> f * gstRate + 1 / 4" "f * gstRate - 1 / 4 \<le> t"
    and et': "t' \<le> f' * gstRate + 1 / 4" "f' * gstRate - 1 / 4 \<le> t'"
    unfolding t_def t'_def tax_from_def f_def [symmetric] f'_def [symmetric] by linarith+
  have df: "f' - f \<le> 1"
    using ef(2) ef'(1) g(4) unfolding feeRate_def
    by (simp add: distrib_right add_divide_distrib diff_divide_distrib)
  have dt: "t' - t \<le> 3 / 4"
    using et(2) et'(1) df unfolding gstRate_def
    by (simp add: distrib_right add_divide_distrib diff_divide_distrib)
  have "2251799813685248 \<le> z" using ef(1) wg gn unfolding z_def by linarith
  then have zlo: "2 ^ 51 \<le> z" by simp
  have "z' < 9007199254740992" using ef'(2) wg' gn g(3,4) unfolding z'_def by linarith
  then have zhi: "z' < 2 ^ 53" by simp
  have gap: "z + 1 \<le> z'" using df g(3) unfolding z_def z'_def by linarith
  have gap2: "z + 29 / 20 \<le> z'"
    using ef(2) ef'(1) g(3,4) unfolding z_def z'_def feeRate_def
    by (simp add: distrib_right add_divide_distrib diff_divide_distrib)
  have e1: "e0 \<le> 0" using e0 by simp
  have rr: "r + 1 \<le> r'"
  proof (cases "2 ^ 52 \<le> z")
    case True
    have rv: "r = of_int (rne z)" "r' = of_int (rne z')"
      using True gap zhi e1 unfolding r_def r'_def by (simp_all add: rnd_from_top)
    have "\<bar>of_int (rne z) - z\<bar> \<le> 1 / 2" "\<bar>of_int (rne z') - z'\<bar> \<le> 1 / 2" by (rule rne_error)+
    with gap2 have "(of_int (rne z) :: rat) < of_int (rne z')" by linarith
    then have "rne z < rne z'" by (simp only: of_int_less_iff)
    then have "rne z + 1 \<le> rne z'" by simp
    then have "(of_int (rne z + 1) :: rat) \<le> of_int (rne z')" by (simp only: of_int_le_iff)
    then show ?thesis unfolding rv by simp
  next
    case False
    then have zlt: "z < 2 ^ 52" by simp
    have rv: "r = of_int (rne (2 * z)) / 2" using zlo zlt e0 unfolding r_def by (rule rnd_from_below)
    have "\<bar>of_int (rne (2 * z)) - 2 * z\<bar> \<le> 1 / 2" by (rule rne_error)
    then have ru: "r \<le> z + 1 / 4" unfolding rv by linarith
    have "2 powi 51 \<le> \<bar>z'\<bar>" using zlo gap by simp
    from rnd_from_multiple [OF this, of e0] obtain j where "r' = of_int j * 2 powi (51 - 52)"
      unfolding r'_def ..
    then have r'v: "r' = of_int j / 2" by (simp add: power_int_minus)
    have "\<bar>z'\<bar> < 2 powi (52 + 1)" using zlo gap zhi by simp
    from half_error [OF this e1] have "\<bar>r' - z'\<bar> \<le> 1 / 2" by (simp add: r'_def)
    with ru gap2 have "r + 1 / 2 < r'" by linarith
    then have "(of_int (rne (2 * z) + 1) :: rat) < of_int j" unfolding rv r'v by simp
    then have "rne (2 * z) + 1 < j" by (simp only: of_int_less_iff)
    then have "rne (2 * z) + 2 \<le> j" by simp
    then have "(of_int (rne (2 * z) + 2) :: rat) \<le> of_int j" by (simp only: of_int_le_iff)
    then show ?thesis unfolding rv r'v by simp
  qed
  have "\<bar>z\<bar> < 2 powi (52 + 1)" using zlo gap zhi by simp
  from half_error [OF this e1] have "\<bar>r - z\<bar> \<le> 1 / 2" by (simp add: r_def)
  then have rl: "z - 1 / 2 \<le> r" by linarith
  have tu: "t \<le> 281474976710656" using et(1) wf ef(1) wg gn by linarith
  have "0 \<le> r - t" using rl \<open>2251799813685248 \<le> z\<close> tu by linarith
  moreover have "r - t \<le> r' - t'" using rr dt by linarith
  ultimately have "rnd_from e0 (r - t) \<le> rnd_from e0 (r' - t')" by (rule rnd_from_mono)
  then show ?thesis
    by (simp add: net_from_def rest_from_def r_def r'_def z_def z'_def f_def f'_def t_def t'_def)
qed

lemma mantissa_of_normal:
  assumes x: "binary64 x" and x0: "0 < x" and ne: "- 1074 < expo x"
  shows "\<exists>k. x = of_int k * 2 powi expo x \<and> 2 ^ 52 \<le> k \<and> k < 2 ^ 53"
proof -
  have xn: "x \<noteq> 0" using x0 by simp
  have ex: "expo x = ilog2 x - 52" using ne by (simp add: expo_def max_def split: if_splits)
  from binary64D [OF x] obtain k where k: "x = of_int k * 2 powi expo x" ..
  then have q: "x / 2 powi expo x = of_int k" by (rule grid_div)
  have "(2::rat) powi ilog2 x = 2 powi 52 * 2 powi expo x"
    using two_powi_add [of 52 "expo x"] by (simp add: ex)
  then have lo: "2 ^ 52 * 2 powi expo x \<le> x" using ilog2_bounds(1) [OF xn] x0 by simp
  have "(2::rat) powi (ilog2 x + 1) = 2 powi 53 * 2 powi expo x"
    using two_powi_add [of 53 "expo x"] by (simp add: ex add.commute)
  then have hi: "x < 2 ^ 53 * 2 powi expo x" using ilog2_bounds(2) [OF xn] x0 by simp
  from lo have "2 ^ 52 \<le> x / 2 powi expo x" by (simp add: pos_le_divide_eq)
  then have "(of_int (2 ^ 52) :: rat) \<le> of_int k" unfolding q by simp
  then have k1: "2 ^ 52 \<le> k" by (simp only: of_int_le_iff)
  from hi have "x / 2 powi expo x < 2 ^ 53" by (simp add: pos_divide_less_eq)
  then have "(of_int k :: rat) < of_int (2 ^ 53)" unfolding q by simp
  then have k2: "k < 2 ^ 53" by (simp only: of_int_less_iff)
  from k k1 k2 show ?thesis by blast
qed

lemma far_from_ten:
  assumes a0: "0 < a" and far: "a + 10 * 2 powi expo a \<le> b"
  shows "a + 5 * 2 powi expo b \<le> b"
proof (cases "expo b \<le> expo a + 1")
  case True
  then have "(2::rat) powi expo b \<le> 2 powi (expo a + 1)" by (intro power_int_increasing) simp_all
  also have "\<dots> = 2 * 2 powi expo a" by (simp add: two_powi_add)
  finally show ?thesis using far by linarith
next
  case False
  then have gt: "expo a + 2 \<le> expo b" by simp
  have "- 1074 \<le> expo a" by (rule expo_ge)
  with gt have eb: "expo b = ilog2 b - 52" by (simp add: expo_def max_def split: if_splits)
  have "ilog2 a - 52 \<le> expo a" by (simp add: expo_def)
  with gt eb have il: "ilog2 a + 1 \<le> ilog2 b - 1" by simp
  have an: "a \<noteq> 0" using a0 by simp
  have "(0::rat) < 2 powi expo a" by simp
  with far a0 have b0: "0 < b" by linarith
  then have bn: "b \<noteq> 0" by simp
  define B :: rat where "B = 2 powi (ilog2 b - 1)"
  have "a < 2 powi (ilog2 a + 1)" using ilog2_bounds(2) [OF an] a0 by simp
  also have "\<dots> \<le> B" unfolding B_def using il by (intro power_int_increasing) simp_all
  finally have aB: "a < B" .
  have "(2::rat) powi ilog2 b = 2 * B" using two_powi_add [of 1 "ilog2 b - 1"] by (simp add: B_def)
  then have bB: "2 * B \<le> b" using ilog2_bounds(1) [OF bn] b0 by simp
  have "B = 2 powi 51 * 2 powi expo b" using two_powi_add [of 51 "expo b"] by (simp add: B_def eb)
  then have "5 * 2 powi expo b \<le> B" by simp
  with aB bB show ?thesis by linarith
qed

lemma net_of_not_adjacent:
  assumes a: "binary64 a" "0 < a" and b: "binary64 b" and apart: "a + 2 * 2 powi expo a \<le> b"
  shows "net_of a \<le> net_of b"
proof -
  define e where "e = expo a"
  define h :: rat where "h = 2 powi e"
  have h0: "0 < h" by (simp add: h_def)
  have ab: "a \<le> b" using apart h0 unfolding e_def [symmetric] h_def [symmetric] by linarith
  have a0: "0 \<le> a" using a(2) by simp
  consider "2 powi (- 1016) \<le> a" | "a + 10 * h \<le> b" | "b < a + 10 * h"
    by linarith
  then show ?thesis
  proof cases
    case 1
    with a(1) b show ?thesis using ab by (rule net_of_chain)
  next
    case 2
    then have "a + 5 * 2 powi expo b \<le> b"
      unfolding h_def e_def by (rule far_from_ten [OF a(2)])
    with a(1) a0 b show ?thesis by (rule net_of_far_apart)
  next
    case 3
    from binary64_mantissa [OF a(1) a0] obtain k where
      k: "a = of_int k * h" "0 \<le> k" "k \<le> 2 ^ 53"
      unfolding h_def e_def by blast
    have "a \<noteq> 0" "\<bar>a\<bar> \<le> \<bar>b\<bar>" using a(2) ab by simp_all
    then have "e \<le> expo b" unfolding e_def by (rule expo_mono)
    from binary64_grid [OF b this] obtain j where j: "b = of_int j * h" unfolding h_def ..
    have "a + 2 * h \<le> b" using apart by (simp only: h_def e_def)
    then have "of_int (k + 2) * h \<le> of_int j * h"
      unfolding k(1) j by (simp add: distrib_right)
    then have "(of_int (k + 2) :: rat) \<le> of_int j" using h0 by (simp only: mult_le_cancel_right_pos)
    then have kj: "k + 2 \<le> j" by (simp only: of_int_le_iff)
    have "of_int j * h < of_int (k + 10) * h" using 3 unfolding k(1) j by (simp add: distrib_right)
    then have "(of_int j :: rat) < of_int (k + 10)" using h0 by (simp only: mult_less_cancel_right_pos)
    then have "j < k + 10" by (simp only: of_int_less_iff)
    then have jk: "j \<le> k + 10" by simp
    have na: "net_of a = net_from (- 1074 - e) (of_int k) * h"
      unfolding k(1) h_def by (simp only: net_of_is_net_from net_from_scale)
    have nb: "net_of b = net_from (- 1074 - e) (of_int j) * h"
      unfolding j h_def by (simp only: net_of_is_net_from net_from_scale)
    have "net_from (- 1074 - e) (of_int k) \<le> net_from (- 1074 - e) (of_int j)"
    proof (cases "e = - 1074")
      case True
      have "j \<le> 2 ^ 53 + 10" using jk k(3) by simp
      from exact_format_step [OF k(2) kj jk this] show ?thesis by (simp add: True)
    next
      case False
      have "- 1074 \<le> e" unfolding e_def by (rule expo_ge)
      with False have ne: "- 1074 < expo a" and e0: "- 1074 - e \<le> - 1" by (simp_all add: e_def)
      from mantissa_of_normal [OF a ne] obtain k' where
        k': "a = of_int k' * h" "2 ^ 52 \<le> k'" "k' < 2 ^ 53"
        unfolding h_def e_def by blast
      have "of_int k' * h = of_int k * h" using k'(1) k(1) by (rule trans [OF sym])
      then have "(of_int k' :: rat) = of_int k" using h0 by (simp only: mult_cancel_right) simp
      then have "k' = k" by (simp only: of_int_eq_iff)
      with k' have kr: "2 ^ 52 \<le> k" "k < 2 ^ 53" by simp_all
      have g1: "(2::rat) ^ 52 \<le> of_int k"
      proof -
        have "(of_int (2 ^ 52) :: rat) \<le> of_int k" using kr(1) by (simp only: of_int_le_iff)
        then show ?thesis by simp
      qed
      have g2: "(of_int k :: rat) < 2 ^ 53"
      proof -
        have "(of_int k :: rat) < of_int (2 ^ 53)" using kr(2) by (simp only: of_int_less_iff)
        then show ?thesis by simp
      qed
      have g3: "(of_int k :: rat) + 2 \<le> of_int j"
      proof -
        have "(of_int (k + 2) :: rat) \<le> of_int j" using kj by (simp only: of_int_le_iff)
        then show ?thesis by simp
      qed
      have g4: "(of_int j :: rat) \<le> of_int k + 10"
      proof -
        have "(of_int j :: rat) \<le> of_int (k + 10)" using jk by (simp only: of_int_le_iff)
        then show ?thesis by simp
      qed
      from e0 g1 g2 g3 g4 show ?thesis by (rule coarse_format_step)
    qed
    then have "net_from (- 1074 - e) (of_int k) * h \<le> net_from (- 1074 - e) (of_int j) * h"
      using h0 by (intro mult_right_mono) simp_all
    then show ?thesis by (simp only: na nb)
  qed
qed

subsection \<open>Negative amounts\<close>

lemma round_number_minus: "round_number (- x) = num_neg (round_number x)"
  by (simp add: round_number_def Let_def rnd_minus)

lemma num_mul_neg: "num_mul (num_neg a) b = num_neg (num_mul a b)"
  by (cases a; cases b) (simp_all add: round_number_minus)

lemma num_sub_neg: "num_sub (num_neg a) (num_neg b) = num_neg (num_sub a b)"
proof (cases a; cases b)
  fix x y
  assume "a = Fin x" "b = Fin y"
  have "round_number (- x - - y) = round_number (- (x - y))" by simp
  also have "\<dots> = num_neg (round_number (x - y))" by (rule round_number_minus)
  finally show ?thesis using \<open>a = Fin x\<close> \<open>b = Fin y\<close>
    by (simp only: num_neg.simps num_sub.simps)
qed simp_all

lemma breakdown_neg:
  "calculateWithdrawalBreakdown (num_neg g) = neg_breakdown (calculateWithdrawalBreakdown g)"
  by (simp add: calculateWithdrawalBreakdown_def neg_breakdown_def Let_def num_mul_neg num_sub_neg)

lemma breakdown_is_finite:
  assumes "binary64 g"
  shows "\<exists>f t n. calculateWithdrawalBreakdown (Fin g) = \<lparr>gatewayFee = Fin f, gst = Fin t, netAmount = Fin n\<rparr>
     \<and> binary64 f \<and> binary64 t \<and> binary64 n"
proof (cases "0 \<le> g")
  case True
  from breakdown_finite [OF assms True] fee_of_bounds(3) [OF assms True]
    tax_of_bounds(3) [OF assms True] net_of_bounds(3) [OF assms True]
  show ?thesis by blast
next
  case False
  then have g: "binary64 (- g)" "0 \<le> - g" using assms by simp_all
  have "calculateWithdrawalBreakdown (Fin g) = calculateWithdrawalBreakdown (num_neg (Fin (- g)))"
    by simp
  also have "\<dots> = \<lparr>gatewayFee = Fin (- fee_of (- g)), gst = Fin (- tax_of (- g)),
      netAmount = Fin (- net_of (- g))\<rparr>"
    unfolding breakdown_neg breakdown_finite [OF g] by (simp add: neg_breakdown_def)
  finally show ?thesis
    using fee_of_bounds(3) [OF g] tax_of_bounds(3) [OF g] net_of_bounds(3) [OF g]
    by simp
qed

section \<open>The withdrawal breakdown\<close>

lemma binary64_int: "\<bar>k\<bar> \<le> 2 ^ 53 \<Longrightarrow> binary64 (of_int k)"
proof -
  assume k: "\<bar>k\<bar> \<le> 2 ^ 53"
  then have "(of_int \<bar>k\<bar> :: rat) \<le> of_int (2 ^ 53)" by (simp only: of_int_le_iff)
  then have "\<bar>of_int k :: rat\<bar> < 2 ^ 1024" by simp
  moreover have "(of_int k :: rat) = of_int k * 2 powi 0" by simp
  ultimately show ?thesis using k by (intro binary64I2 [of _ k 0]) simp_all
qed

lemma binary64_2000: "binary64 2000"
  using binary64_int [of 2000] by simp

lemma binary64_1000: "binary64 1000"
  using binary64_int [of 1000] by simp

lemma binary64_100: "binary64 100"
  using binary64_int [of 100] by simp

lemma binary64_ulps: "\<bar>k\<bar> \<le> 2 ^ 53 \<Longrightarrow> binary64 (of_int k * 2 powi (- 1074))"
proof -
  assume k: "\<bar>k\<bar> \<le> 2 ^ 53"
  then have "(of_int \<bar>k\<bar> :: rat) \<le> of_int (2 ^ 53)" by (simp only: of_int_le_iff)
  then have "\<bar>of_int k :: rat\<bar> \<le> 2 ^ 53" by simp
  moreover have "(2::rat) powi (- 1074) \<le> 2 powi 0" by (intro power_int_increasing) simp_all
  ultimately have "\<bar>of_int k :: rat\<bar> * 2 powi (- 1074) \<le> 2 ^ 53 * 1"
    by (intro mult_mono) simp_all
  then have "\<bar>of_int k * 2 powi (- 1074) :: rat\<bar> < 2 ^ 1024" by (simp add: abs_mult)
  then show ?thesis using k by (intro binary64I2 [of _ k "- 1074"]) simp_all
qed

lemma binary64_after_1000: "binary64 (8796093022208001 / 2 ^ 43)"
proof -
  have "(8796093022208001 / 2 ^ 43 :: rat) = of_int 8796093022208001 * 2 powi (- 43)"
    by (simp add: power_int_minus)
  then show ?thesis by (rule binary64I2) simp_all
qed

lemma binary64_scaled:
  assumes "\<bar>k\<bar> \<le> 2 ^ 53" "- 1074 \<le> e" "e \<le> 0"
  shows "binary64 (of_int k * 2 powi e)"
proof -
  from assms(1) have "(of_int \<bar>k\<bar> :: rat) \<le> of_int (2 ^ 53)" by (simp only: of_int_le_iff)
  then have "\<bar>of_int k :: rat\<bar> \<le> 2 ^ 53" by simp
  moreover have "(2::rat) powi e \<le> 2 powi 0" using assms(3) by (intro power_int_increasing) simp_all
  ultimately have "\<bar>of_int k :: rat\<bar> * 2 powi e \<le> 2 ^ 53 * 1"
    by (intro mult_mono) simp_all
  then have "\<bar>of_int k * 2 powi e :: rat\<bar> < 2 ^ 1024" by (simp add: abs_mult)
  then show ?thesis using assms(1,2) by (intro binary64I2 [of _ k e]) simp_all
qed

lemma binary64_below_threshold:
  "binary64 (9007199254736524 * 2 powi (- 1069))" "binary64 (9007199254736525 * 2 powi (- 1069))"
  using binary64_scaled [of 9007199254736524 "- 1069"] binary64_scaled [of 9007199254736525 "- 1069"]
  by simp_all

lemma net_amount_nonneg:
  assumes "binary64 x" "0 \<le> x"
  shows "netAmount (calculateWithdrawalBreakdown (Fin x)) = Fin (net_of x)"
  by (simp add: breakdown_finite [OF assms])

lemma net_amount_nonpos:
  assumes "binary64 x" "x \<le> 0"
  shows "netAmount (calculateWithdrawalBreakdown (Fin x)) = Fin (- net_of (- x))"
proof -
  have g: "binary64 (- x)" "0 \<le> - x" using assms by simp_all
  have "calculateWithdrawalBreakdown (Fin x) = calculateWithdrawalBreakdown (num_neg (Fin (- x)))"
    by simp
  then show ?thesis
    unfolding breakdown_neg breakdown_finite [OF g] by (simp add: neg_breakdown_def)
qed

text \<open>
  The net amount keeps the sign of the amount: the tax is at most half the fee and the fee
  at most half the amount, so the net amount of a positive amount is at least the least
  positive number, and that of a negative amount is negative.
\<close>

lemma rate_half:
  assumes g: "binary64 g" "0 \<le> g" and rate: "rate \<le> 1 / 4"
    and tiny: "rnd (2 powi (- 1074) * rate) = 0"
  shows "2 * rnd (g * rate) \<le> g"
proof -
  from binary64_mantissa [OF g] obtain m where
    gm: "g = of_int m * 2 powi expo g" and m0: "0 \<le> m" and m53: "m \<le> 2 ^ 53"
    by blast
  define e where "e = expo g"
  have ge: "g = of_int m * 2 powi e" using gm by (simp add: e_def)
  consider "m = 0" | "m = 1" | "2 \<le> m" using m0 by linarith
  then show ?thesis
  proof cases
    case 1
    then show ?thesis by (simp add: ge)
  next
    case 2
    then have g2: "g = 2 powi e" by (simp add: ge)
    have "(2::rat) powi e < 2 powi (e + 1)" by (intro power_int_strict_increasing) simp_all
    then have "ilog2 g = e" by (intro ilog2_unique) (simp_all add: g2)
    then have "e = - 1074" using e_def by (simp add: expo_def max_def split: if_splits)
    with g2 have "g = 2 powi (- 1074)" by (simp only:)
    then have "rnd (g * rate) = 0" by (simp only: tiny)
    then show ?thesis using g(2) by simp
  next
    case 3
    define h :: rat where "h = of_int (m div 2) * 2 powi e"
    have p: "(0::rat) < 2 powi e" by simp
    have "m \<le> 2 * (m div 2) + 1" by linarith
    then have "(of_int m :: rat) \<le> of_int (2 * (m div 2) + 1)" by (simp only: of_int_le_iff)
    then have a: "(of_int m :: rat) \<le> 2 * of_int (m div 2) + 1" by simp
    have "2 * (m div 2) \<le> m" by linarith
    then have "(of_int (2 * (m div 2)) :: rat) \<le> of_int m" by (simp only: of_int_le_iff)
    then have b: "2 * (of_int (m div 2) :: rat) \<le> of_int m" by simp
    have "(of_int 2 :: rat) \<le> of_int m" using 3 by (simp only: of_int_le_iff)
    then have c: "(2::rat) \<le> of_int m" by simp
    have "of_int m * rate \<le> of_int m * (1 / 4)"
      using rate c by (intro mult_left_mono) simp_all
    also have "\<dots> \<le> of_int (m div 2)" using a c by simp
    finally have "of_int m * rate * 2 powi e \<le> of_int (m div 2) * 2 powi e"
      using p by (intro mult_right_mono) simp_all
    then have xh: "g * rate \<le> h" by (simp add: ge h_def mult_ac)
    have "2 * of_int (m div 2) * 2 powi e \<le> of_int m * (2::rat) powi e"
      using b p by (intro mult_right_mono) simp_all
    then have hg: "2 * h \<le> g" by (simp add: ge h_def)
    have h0: "0 \<le> h" using 3 by (simp add: h_def pos_imp_zdiv_nonneg_iff)
    have "\<bar>h\<bar> < 2 ^ 1024" using binary64_bound [OF g(1)] hg h0 g(2) by simp
    moreover have "\<bar>m div 2\<bar> \<le> 2 ^ 53" using m0 m53 by simp
    moreover have "- 1074 \<le> e" by (simp add: e_def expo_ge)
    ultimately have "binary64 h" using h_def by (intro binary64I2 [of h "m div 2" e]) simp_all
    then have "rnd (g * rate) \<le> h" using xh by (rule rnd_le)
    with hg show ?thesis by simp
  qed
qed

lemma least_subnormal_tax: "rnd (2 powi (- 1074) * gstRate) = 0"
  by (rule rnd_eval_tiny) (simp_all add: rne_eval gstRate_def)

lemma tax_of_half:
  assumes "binary64 g" "0 \<le> g"
  shows "2 * tax_of g \<le> fee_of g"
  unfolding tax_of_def
  using fee_of_bounds(3,1) [OF assms] rate_bounds(4) least_subnormal_tax by (rule rate_half)

lemma least_positive:
  assumes "binary64 a" "binary64 b" "b < a"
  shows "2 powi (- 1074) \<le> a - b"
proof -
  from binary64_subnormal_grid [OF assms(1)] obtain i where i: "a = of_int i * 2 powi (- 1074)" ..
  from binary64_subnormal_grid [OF assms(2)] obtain j where j: "b = of_int j * 2 powi (- 1074)" ..
  have "of_int j * 2 powi (- 1074) < of_int i * (2::rat) powi (- 1074)" using assms(3) unfolding i j .
  then have "(of_int j :: rat) < of_int i" by (simp only: mult_less_cancel_right_pos two_powi_pos)
  then have "j < i" by (simp only: of_int_less_iff)
  then have "1 \<le> i - j" by simp
  then have "(of_int 1 :: rat) \<le> of_int (i - j)" by (simp only: of_int_le_iff)
  then have "1 * 2 powi (- 1074) \<le> (of_int i - of_int j) * (2::rat) powi (- 1074)"
    by (intro mult_right_mono) simp_all
  then show ?thesis unfolding i j by (simp add: left_diff_distrib)
qed

lemma net_of_positive:
  assumes "binary64 g" "0 < g"
  shows "0 < net_of g"
proof -
  have g0: "0 \<le> g" using assms(2) by simp
  define u :: rat where "u = 2 powi (- 1074)"
  have u0: "0 < u" by (simp add: u_def)
  have bu: "binary64 u" using binary64_ulps [of 1] by (simp add: u_def)
  note f = fee_of_bounds [OF assms(1) g0] and t = tax_of_bounds [OF assms(1) g0]
    and r = rest_of_bounds [OF assms(1) g0]
  have "fee_of g < g" using fee_of_half [OF assms(1) g0] assms(2) f(1) by linarith
  from least_positive [OF assms(1) f(3) this] have "u \<le> g - fee_of g" by (simp add: u_def)
  with bu have ur: "u \<le> rest_of g" unfolding rest_of_def by (rule rnd_ge)
  have "tax_of g < rest_of g"
  proof (cases "fee_of g = 0")
    case True
    then have "tax_of g = 0" by (simp add: tax_of_def)
    with ur u0 show ?thesis by simp
  next
    case False
    with f(1) have "0 < fee_of g" by simp
    with tax_of_half [OF assms(1) g0] have "tax_of g < fee_of g" by linarith
    with r(1) show ?thesis by simp
  qed
  from least_positive [OF r(3) t(3) this] have "u \<le> rest_of g - tax_of g" by (simp add: u_def)
  with bu have "u \<le> net_of g" unfolding net_of_def by (rule rnd_ge)
  with u0 show ?thesis by simp
qed

lemma net_negative_of_negative:
  assumes "binary64 g" "g < 0"
  shows "\<not> num_le (Fin 0) (netAmount (calculateWithdrawalBreakdown (Fin g)))"
proof -
  have "0 < net_of (- g)" using assms by (intro net_of_positive) simp_all
  moreover have "g \<le> 0" using assms(2) by simp
  ultimately show ?thesis by (simp add: net_amount_nonpos [OF assms(1)] num_le_def)
qed

text \<open>
  Just below \<open>2^-1016\<close> the net amount still decreases from one binary64 value to the
  next: at \<open>(2^53 - 4468) * 2^-1069\<close> it is \<open>281428139274391776 * 2^-1074\<close>, and at
  the next value it is \<open>281428139274391744 * 2^-1074\<close>.
\<close>

lemma net_decreases_below_threshold:
  "binary64 (9007199254736524 * 2 powi (- 1069)) \<and> binary64 (9007199254736525 * 2 powi (- 1069))
   \<and> (9007199254736524 * 2 powi (- 1069) :: rat) \<le> 9007199254736525 * 2 powi (- 1069)
   \<and> (9007199254736525 * 2 powi (- 1069) :: rat) < 2 powi (- 1016)
   \<and> \<not> num_le (netAmount (calculateWithdrawalBreakdown (Fin (9007199254736524 * 2 powi (- 1069)))))
          (netAmount (calculateWithdrawalBreakdown (Fin (9007199254736525 * 2 powi (- 1069)))))"
proof -
  have "(9007199254736524 * 2 powi (- 1069) :: rat) \<le> 9007199254736525 * 2 powi (- 1069)"
    by (intro mult_right_mono) simp_all
  moreover have "(2::rat) powi (- 1016) = 2 powi 53 * 2 powi (- 1069)"
    using two_powi_add [of 53 "- 1069"] by simp
  then have "(9007199254736525 * 2 powi (- 1069) :: rat) < 2 powi (- 1016)"
    by (simp only:) (intro mult_strict_right_mono, simp_all)
  moreover have "(281428139274391744 * 2 powi (- 1074) :: rat) < 281428139274391776 * 2 powi (- 1074)"
    by (intro mult_strict_right_mono) simp_all
  then have "\<not> num_le (netAmount (calculateWithdrawalBreakdown (Fin (9007199254736524 * 2 powi (- 1069)))))
          (netAmount (calculateWithdrawalBreakdown (Fin (9007199254736525 * 2 powi (- 1069)))))"
    unfolding below_threshold_breakdown below_threshold_next_breakdown by (simp add: num_le_def)
  ultimately show ?thesis using binary64_below_threshold by blast
qed

text \<open>
  C1.  For every finite amount \<open>g \<ge> 0\<close>, the expression
  \<open>gatewayFee + gst + netAmount\<close> evaluates to a finite number that differs from
  \<open>g\<close> by at most \<open>g / 2^50\<close>, four units of machine epsilon; and the exact sum of
  the three returned values differs from \<open>g\<close> by at most \<open>g / 2^52\<close>.
\<close>

theorem breakdown_sums_to_gross:
  assumes "binary64 g" "0 \<le> g"
  shows "num_close (1 / 2 ^ 50)
           (breakdown_total (calculateWithdrawalBreakdown (Fin g))) (Fin g)
    \<and> (\<exists>f t n. calculateWithdrawalBreakdown (Fin g)
                  = \<lparr>gatewayFee = Fin f, gst = Fin t, netAmount = Fin n\<rparr>
          \<and> \<bar>f + t + n - g\<bar> \<le> g / 2 ^ 52)"
proof -
  have exact: "\<exists>f t n. calculateWithdrawalBreakdown (Fin g)
                  = \<lparr>gatewayFee = Fin f, gst = Fin t, netAmount = Fin n\<rparr>
          \<and> \<bar>f + t + n - g\<bar> \<le> g / 2 ^ 52"
    using breakdown_finite [OF assms] exact_sum_close [OF assms] by blast
  have close: "num_close (1 / 2 ^ 50)
           (breakdown_total (calculateWithdrawalBreakdown (Fin g))) (Fin g)"
  proof (cases "g \<le> (2 ^ 53 - 3) * 2 ^ 971")
    case True
    from total_general [OF assms True] assms(2) show ?thesis by simp
  next
    case False
    then have "(2 ^ 53 - 3) * 2 ^ 971 < g" by simp
    from top_floats [OF assms(1) this] show ?thesis
    proof
      assume "g = (2 ^ 53 - 2) * 2 ^ 971"
      then have g: "g = 4503599627370495 * 2 ^ 972" by simp
      show ?thesis unfolding g below_max_total by simp
    next
      assume "g = max_value"
      then have g: "g = 9007199254740991 * 2 ^ 971" by (simp add: max_value_def)
      show ?thesis unfolding g at_max_total by simp
    qed
  qed
  from close exact show ?thesis ..
qed

theorem breakdown_sums_to_gross_witness:
  "binary64 2000 \<and> (0::rat) \<le> 2000
   \<and> num_close (1 / 2 ^ 50)
        (breakdown_total (calculateWithdrawalBreakdown (Fin 2000))) (Fin 2000)
   \<and> breakdown_total (calculateWithdrawalBreakdown (Fin 2000)) = Fin 2000"
proof -
  have z: "(0::rat) \<le> 2000" by simp
  from breakdown_sums_to_gross [OF binary64_2000 z]
  have "num_close (1 / 2 ^ 50)
        (breakdown_total (calculateWithdrawalBreakdown (Fin 2000))) (Fin 2000)" ..
  with binary64_2000 z at_2000_total show ?thesis by blast
qed

text \<open>
  C2.  For every input, \<open>gatewayFee\<close> is the product of the input and
  \<open>GATEWAY_FEE_PERCENTAGE\<close>, and \<open>gst\<close> is the product of that fee and
  \<open>GST_PERCENTAGE\<close>; the two constants are the numbers written \<open>0.02\<close> and
  \<open>0.18\<close>.  The tax is taken on the fee and not on the gross amount: at 2000 the two
  differ.
\<close>

theorem fee_and_gst_compositional:
  "gatewayFee (calculateWithdrawalBreakdown g) = num_mul g GATEWAY_FEE_PERCENTAGE
   \<and> gst (calculateWithdrawalBreakdown g)
       = num_mul (gatewayFee (calculateWithdrawalBreakdown g)) GST_PERCENTAGE
   \<and> GATEWAY_FEE_PERCENTAGE = round_number (2 / 100)
   \<and> GST_PERCENTAGE = round_number (18 / 100)
   \<and> GATEWAY_FEE_PERCENTAGE = Fin (5764607523034235 / 2 ^ 58)
   \<and> GST_PERCENTAGE = Fin (6485183463413514 / 2 ^ 55)
   \<and> gst (calculateWithdrawalBreakdown (Fin 2000)) \<noteq> num_mul (Fin 2000) GST_PERCENTAGE"
proof -
  have "num_mul (Fin 2000) GST_PERCENTAGE = Fin 360"
    unfolding gst_rate num_mul.simps by (rule round_number_eval [OF gst_on_gross_2000]) simp
  then have "gst (calculateWithdrawalBreakdown (Fin 2000)) \<noteq> num_mul (Fin 2000) GST_PERCENTAGE"
    by (simp add: at_2000_breakdown)
  moreover have "GATEWAY_FEE_PERCENTAGE = Fin (5764607523034235 / 2 ^ 58)"
    "GST_PERCENTAGE = Fin (6485183463413514 / 2 ^ 55)"
    using fee_rate gst_rate by (simp_all add: feeRate_def gstRate_def)
  moreover have "gatewayFee (calculateWithdrawalBreakdown g) = num_mul g GATEWAY_FEE_PERCENTAGE"
    "gst (calculateWithdrawalBreakdown g)
       = num_mul (gatewayFee (calculateWithdrawalBreakdown g)) GST_PERCENTAGE"
    by (simp_all add: calculateWithdrawalBreakdown_def Let_def)
  moreover note GATEWAY_FEE_PERCENTAGE_def GST_PERCENTAGE_def
  ultimately show ?thesis by blast
qed

text \<open>
  C3.  At \<open>-100\<close> the net amount is about \<open>-97.64\<close>: it is negative, and it
  exceeds the input.
\<close>

theorem net_within_gross_counterexample:
  "\<not> num_le (Fin 0) (netAmount (calculateWithdrawalBreakdown (Fin (- 100))))
   \<and> \<not> num_le (netAmount (calculateWithdrawalBreakdown (Fin (- 100)))) (Fin (- 100))"
  by (simp add: at_minus_100_breakdown num_le_def)

text \<open>
  C3, amended.  For every finite amount \<open>g \<ge> 0\<close>, \<open>netAmount\<close> is at least
  zero and at most \<open>g\<close>.
\<close>

theorem net_within_gross:
  assumes "binary64 g" "0 \<le> g"
  shows "num_le (Fin 0) (netAmount (calculateWithdrawalBreakdown (Fin g)))
    \<and> num_le (netAmount (calculateWithdrawalBreakdown (Fin g))) (Fin g)"
  using net_of_bounds(1,2) [OF assms]
  by (auto simp add: breakdown_finite [OF assms] num_le_def)

theorem net_within_gross_witness:
  "binary64 2000 \<and> (0::rat) \<le> 2000
   \<and> num_le (Fin 0) (netAmount (calculateWithdrawalBreakdown (Fin 2000)))
   \<and> num_le (netAmount (calculateWithdrawalBreakdown (Fin 2000))) (Fin 2000)
   \<and> netAmount (calculateWithdrawalBreakdown (Fin 2000)) = Fin (8588505226883891 / 2 ^ 42)"
proof -
  have z: "(0::rat) \<le> 2000" by simp
  from net_within_gross [OF binary64_2000 z] binary64_2000 z show ?thesis
    by (simp add: at_2000_breakdown)
qed

text \<open>
  C4.  Among the subnormal numbers the net amount can decrease: with \<open>u = 2^-1074\<close>,
  the net amount of \<open>124 u\<close> is \<open>122 u\<close> and that of \<open>125 u\<close> is
  \<open>121 u\<close>.
\<close>

theorem net_monotone_counterexample:
  "binary64 (124 * 2 powi (- 1074)) \<and> binary64 (125 * 2 powi (- 1074))
   \<and> (124 * 2 powi (- 1074) :: rat) \<le> 125 * 2 powi (- 1074)
   \<and> \<not> num_le (netAmount (calculateWithdrawalBreakdown (Fin (124 * 2 powi (- 1074)))))
          (netAmount (calculateWithdrawalBreakdown (Fin (125 * 2 powi (- 1074)))))"
proof -
  have "binary64 (124 * 2 powi (- 1074))" "binary64 (125 * 2 powi (- 1074))"
    using binary64_ulps [of 124] binary64_ulps [of 125] by simp_all
  moreover have "(124 * 2 powi (- 1074) :: rat) \<le> 125 * 2 powi (- 1074)"
    by (intro mult_right_mono) simp_all
  moreover have "(121 * 2 powi (- 1074) :: rat) < 122 * 2 powi (- 1074)"
    by (intro mult_strict_right_mono) simp_all
  then have "\<not> num_le (netAmount (calculateWithdrawalBreakdown (Fin (124 * 2 powi (- 1074)))))
          (netAmount (calculateWithdrawalBreakdown (Fin (125 * 2 powi (- 1074)))))"
    unfolding at_124_ulp_breakdown at_125_ulp_breakdown by (simp add: num_le_def)
  ultimately show ?thesis by blast
qed

text \<open>
  C4, amended.  For finite amounts \<open>a \<le> b\<close>, the net amount of \<open>a\<close> is at most the
  net amount of \<open>b\<close> when \<open>a = b\<close>, or \<open>a \<le> 0 \<le> b\<close>, or \<open>a\<close> is at least
  \<open>2^-1016\<close>, or \<open>b\<close> is at most \<open>-2^-1016\<close>, or \<open>b - a\<close> is at least twice
  the spacing of the binary64 values at the one of \<open>a\<close> and \<open>b\<close> that is nearer to
  zero (the spacing at \<open>x\<close> is \<open>2^(expo x)\<close>).  The pairs left out are a binary64
  value of magnitude below \<open>2^-1016\<close> and its neighbour of the same sign.
\<close>

theorem net_monotone_unless_tiny_neighbours:
  assumes "binary64 a" "binary64 b" "a \<le> b"
    and "a = b \<or> (a \<le> 0 \<and> 0 \<le> b) \<or> 2 powi (- 1016) \<le> a \<or> b \<le> - (2 powi (- 1016))
         \<or> a + 2 * min (2 powi expo a) (2 powi expo b) \<le> b"
  shows "num_le (netAmount (calculateWithdrawalBreakdown (Fin a)))
           (netAmount (calculateWithdrawalBreakdown (Fin b)))"
proof -
  let ?le = "num_le (netAmount (calculateWithdrawalBreakdown (Fin a)))
           (netAmount (calculateWithdrawalBreakdown (Fin b)))"
  have T: "(0::rat) < 2 powi (- 1016)" by simp
  have mixed: "a \<le> 0 \<Longrightarrow> 0 \<le> b \<Longrightarrow> ?le"
  proof -
    assume a0: "a \<le> 0" and b0: "0 \<le> b"
    have "0 \<le> net_of (- a)" using assms(1) a0 by (intro net_of_bounds(1)) simp_all
    moreover have "0 \<le> net_of b" using assms(2) b0 by (rule net_of_bounds(1))
    ultimately show ?le
      by (auto simp add: net_amount_nonpos [OF assms(1) a0] net_amount_nonneg [OF assms(2) b0]
          num_le_def)
  qed
  have pos: "0 \<le> a \<Longrightarrow> net_of a \<le> net_of b \<Longrightarrow> ?le"
  proof -
    assume a0: "0 \<le> a" and le: "net_of a \<le> net_of b"
    from a0 assms(3) have b0: "0 \<le> b" by simp
    from le show ?le
      by (auto simp add: net_amount_nonneg [OF assms(1) a0] net_amount_nonneg [OF assms(2) b0]
          num_le_def)
  qed
  have neg: "b \<le> 0 \<Longrightarrow> net_of (- b) \<le> net_of (- a) \<Longrightarrow> ?le"
  proof -
    assume b0: "b \<le> 0" and le: "net_of (- b) \<le> net_of (- a)"
    from b0 assms(3) have a0: "a \<le> 0" by simp
    from le show ?le
      by (auto simp add: net_amount_nonpos [OF assms(1) a0] net_amount_nonpos [OF assms(2) b0]
          num_le_def)
  qed
  from assms(4) show ?thesis
  proof (elim disjE conjE)
    assume "a = b"
    moreover from breakdown_is_finite [OF assms(2)]
    obtain n where "netAmount (calculateWithdrawalBreakdown (Fin b)) = Fin n" by auto
    ultimately show ?thesis by (simp add: num_le_def)
  next
    assume "a \<le> 0" "0 \<le> b"
    then show ?thesis by (rule mixed)
  next
    assume big: "2 powi (- 1016) \<le> a"
    with T have a0: "0 \<le> a" by linarith
    from a0 net_of_chain [OF assms(1,2) big assms(3)] show ?thesis by (rule pos)
  next
    assume "b \<le> - (2 powi (- 1016))"
    then have big: "2 powi (- 1016) \<le> - b" by simp
    with T have b0: "b \<le> 0" by linarith
    have "net_of (- b) \<le> net_of (- a)"
      using assms(1,2,3) big by (intro net_of_chain) simp_all
    with b0 show ?thesis by (rule neg)
  next
    assume far: "a + 2 * min (2 powi expo a) (2 powi expo b) \<le> b"
    consider "a \<le> 0" "0 \<le> b" | "0 < a" | "b < 0" by linarith
    then show ?thesis
    proof cases
      case 1
      then show ?thesis by (rule mixed)
    next
      case 2
      then have a0: "0 \<le> a" by simp
      have "a \<noteq> 0" "\<bar>a\<bar> \<le> \<bar>b\<bar>" using 2 assms(3) by simp_all
      then have "expo a \<le> expo b" by (rule expo_mono)
      then have "(2::rat) powi expo a \<le> 2 powi expo b" by (intro power_int_increasing) simp_all
      then have "min ((2::rat) powi expo a) (2 powi expo b) = 2 powi expo a" by (rule min_absorb1)
      with far have "a + 2 * 2 powi expo a \<le> b" by simp
      with assms(1) 2 assms(2) have "net_of a \<le> net_of b" by (rule net_of_not_adjacent)
      with a0 show ?thesis by (rule pos)
    next
      case 3
      then have b0: "b \<le> 0" by simp
      have "b \<noteq> 0" "\<bar>b\<bar> \<le> \<bar>a\<bar>" using 3 assms(3) by simp_all
      then have "expo b \<le> expo a" by (rule expo_mono)
      then have "(2::rat) powi expo b \<le> 2 powi expo a" by (intro power_int_increasing) simp_all
      then have "min ((2::rat) powi expo a) (2 powi expo b) = 2 powi expo b" by (rule min_absorb2)
      with far have "- b + 2 * 2 powi expo (- b) \<le> - a" by (simp add: expo_minus)
      moreover have "binary64 (- b)" "0 < - b" "binary64 (- a)" using assms(1,2) 3 by simp_all
      ultimately have "net_of (- b) \<le> net_of (- a)" by (intro net_of_not_adjacent)
      with b0 show ?thesis by (rule neg)
    qed
  qed
qed

theorem net_monotone_unless_tiny_neighbours_witness:
  "binary64 1000 \<and> binary64 (8796093022208001 / 2 ^ 43)
   \<and> (1000::rat) \<le> 8796093022208001 / 2 ^ 43
   \<and> 2 powi (- 1016) \<le> (1000::rat)
   \<and> num_le (netAmount (calculateWithdrawalBreakdown (Fin 1000)))
        (netAmount (calculateWithdrawalBreakdown (Fin (8796093022208001 / 2 ^ 43))))
   \<and> netAmount (calculateWithdrawalBreakdown (Fin 1000)) = Fin (8588505226883891 / 2 ^ 43)
   \<and> netAmount (calculateWithdrawalBreakdown (Fin (8796093022208001 / 2 ^ 43)))
       = Fin (2147126306720973 / 2 ^ 41)"
proof -
  have le: "(1000::rat) \<le> 8796093022208001 / 2 ^ 43" by simp
  have "(2::rat) powi (- 1016) \<le> 2 powi 0" by (intro power_int_increasing) simp_all
  then have p: "2 powi (- 1016) \<le> (1000::rat)" by simp
  then have d: "(1000::rat) = 8796093022208001 / 2 ^ 43
      \<or> ((1000::rat) \<le> 0 \<and> (0::rat) \<le> 8796093022208001 / 2 ^ 43)
      \<or> 2 powi (- 1016) \<le> (1000::rat)
      \<or> (8796093022208001 / 2 ^ 43 :: rat) \<le> - (2 powi (- 1016))
      \<or> 1000 + 2 * min (2 powi expo 1000) (2 powi expo (8796093022208001 / 2 ^ 43))
           \<le> (8796093022208001 / 2 ^ 43 :: rat)"
    by blast
  from net_monotone_unless_tiny_neighbours [OF binary64_1000 binary64_after_1000 le d]
  have m: "num_le (netAmount (calculateWithdrawalBreakdown (Fin 1000)))
        (netAmount (calculateWithdrawalBreakdown (Fin (8796093022208001 / 2 ^ 43))))" .
  have v1: "netAmount (calculateWithdrawalBreakdown (Fin 1000)) = Fin (8588505226883891 / 2 ^ 43)"
    unfolding at_1000_breakdown by simp
  have v2: "netAmount (calculateWithdrawalBreakdown (Fin (8796093022208001 / 2 ^ 43)))
       = Fin (2147126306720973 / 2 ^ 41)"
    unfolding after_1000_breakdown by simp
  from binary64_1000 binary64_after_1000 le p m v1 v2 show ?thesis by blast
qed

text \<open>
  C5.  At 2000 the computed tax is not the number written \<open>7.2\<close>.
\<close>

theorem example_2000_counterexample:
  "calculateWithdrawalBreakdown (Fin 2000)
     \<noteq> \<lparr>gatewayFee = Fin 40, gst = round_number (72 / 10),
         netAmount = round_number (19528 / 10)\<rparr>"
proof -
  have "round_number (72 / 10) = Fin (8106479329266893 / 2 ^ 50)"
    by (rule round_number_eval [OF literal_7_2]) simp
  then show ?thesis by (simp add: at_2000_breakdown)
qed

text \<open>
  C5, amended.  At 2000 the fee is 40, the tax is \<open>8106479329266892 / 2^50\<close> (printed
  \<open>7.199999999999999\<close>), the binary64 value just below the one written \<open>7.2\<close>,
  which is \<open>8106479329266893 / 2^50\<close>, and the net amount is the number written
  \<open>1952.8\<close>.
\<close>

theorem example_2000:
  "calculateWithdrawalBreakdown (Fin 2000)
     = \<lparr>gatewayFee = Fin 40, gst = Fin (8106479329266892 / 2 ^ 50),
         netAmount = round_number (19528 / 10)\<rparr>
   \<and> round_number (72 / 10) = Fin (8106479329266893 / 2 ^ 50)"
proof -
  have "round_number (72 / 10) = Fin (8106479329266893 / 2 ^ 50)"
    by (rule round_number_eval [OF literal_7_2]) simp
  moreover have "round_number (19528 / 10) = Fin (8588505226883891 / 2 ^ 42)"
    by (rule round_number_eval [OF literal_1952_8]) simp
  ultimately show ?thesis by (simp add: at_2000_breakdown)
qed

text \<open>
  C6.  The function has no error result and checks nothing.  At zero all three outputs are
  zero.  The breakdown of \<open>-g\<close> is the negated breakdown of \<open>g\<close>.  A finite
  input, of either sign, gives three finite numbers.  NaN gives three NaNs, and an infinite
  input gives an infinite fee and tax of its sign and a NaN net amount.
\<close>

theorem breakdown_passes_through:
  "calculateWithdrawalBreakdown (Fin 0) = \<lparr>gatewayFee = Fin 0, gst = Fin 0, netAmount = Fin 0\<rparr>
   \<and> calculateWithdrawalBreakdown (num_neg g) = neg_breakdown (calculateWithdrawalBreakdown g)
   \<and> (is_finite g \<and> is_number g \<longrightarrow>
        is_finite (gatewayFee (calculateWithdrawalBreakdown g))
        \<and> is_finite (gst (calculateWithdrawalBreakdown g))
        \<and> is_finite (netAmount (calculateWithdrawalBreakdown g))
        \<and> is_number (gatewayFee (calculateWithdrawalBreakdown g))
        \<and> is_number (gst (calculateWithdrawalBreakdown g))
        \<and> is_number (netAmount (calculateWithdrawalBreakdown g)))
   \<and> calculateWithdrawalBreakdown NaN = \<lparr>gatewayFee = NaN, gst = NaN, netAmount = NaN\<rparr>
   \<and> calculateWithdrawalBreakdown PInf = \<lparr>gatewayFee = PInf, gst = PInf, netAmount = NaN\<rparr>
   \<and> calculateWithdrawalBreakdown NInf = \<lparr>gatewayFee = NInf, gst = NInf, netAmount = NaN\<rparr>"
proof -
  have zero: "calculateWithdrawalBreakdown (Fin 0)
      = \<lparr>gatewayFee = Fin 0, gst = Fin 0, netAmount = Fin 0\<rparr>"
    using breakdown_finite [of 0]
    by (simp add: fee_of_def tax_of_def rest_of_def net_of_def)
  have fin: "is_finite g \<and> is_number g \<longrightarrow>
        is_finite (gatewayFee (calculateWithdrawalBreakdown g))
        \<and> is_finite (gst (calculateWithdrawalBreakdown g))
        \<and> is_finite (netAmount (calculateWithdrawalBreakdown g))
        \<and> is_number (gatewayFee (calculateWithdrawalBreakdown g))
        \<and> is_number (gst (calculateWithdrawalBreakdown g))
        \<and> is_number (netAmount (calculateWithdrawalBreakdown g))"
  proof (cases g)
    case (Fin x)
    show ?thesis
    proof
      assume "is_finite g \<and> is_number g"
      then have "binary64 x" using Fin by simp
      from breakdown_is_finite [OF this] show "is_finite (gatewayFee (calculateWithdrawalBreakdown g))
        \<and> is_finite (gst (calculateWithdrawalBreakdown g))
        \<and> is_finite (netAmount (calculateWithdrawalBreakdown g))
        \<and> is_number (gatewayFee (calculateWithdrawalBreakdown g))
        \<and> is_number (gst (calculateWithdrawalBreakdown g))
        \<and> is_number (netAmount (calculateWithdrawalBreakdown g))"
        unfolding Fin by auto
    qed
  qed simp_all
  have inf: "calculateWithdrawalBreakdown NaN = \<lparr>gatewayFee = NaN, gst = NaN, netAmount = NaN\<rparr>"
    "calculateWithdrawalBreakdown PInf = \<lparr>gatewayFee = PInf, gst = PInf, netAmount = NaN\<rparr>"
    "calculateWithdrawalBreakdown NInf = \<lparr>gatewayFee = NInf, gst = NInf, netAmount = NaN\<rparr>"
    by (simp_all add: calculateWithdrawalBreakdown_def Let_def fee_rate gst_rate feeRate_def
        gstRate_def)
  from zero breakdown_neg [of g] fin inf show ?thesis by blast
qed

theorem breakdown_passes_through_witness:
  "is_finite (Fin (- 100)) \<and> is_number (Fin (- 100))
   \<and> calculateWithdrawalBreakdown (Fin (- 100))
       = \<lparr>gatewayFee = Fin (- 2), gst = Fin (- (3242591731706757 / 2 ^ 53)),
           netAmount = Fin (- (6870804181507113 / 2 ^ 46))\<rparr>
   \<and> is_finite (netAmount (calculateWithdrawalBreakdown (Fin (- 100))))
   \<and> is_number (netAmount (calculateWithdrawalBreakdown (Fin (- 100))))"
proof -
  have a: "is_finite (Fin (- 100)) \<and> is_number (Fin (- 100))"
    using binary64_100 by simp
  from breakdown_passes_through [of "Fin (- 100)"] a
  have "is_finite (netAmount (calculateWithdrawalBreakdown (Fin (- 100))))
    \<and> is_number (netAmount (calculateWithdrawalBreakdown (Fin (- 100))))"
    by blast
  with a at_minus_100_breakdown show ?thesis by blast
qed

section \<open>The minimum withdrawal\<close>

text \<open>
  C7.  On a wallet whose minimum is \<open>MIN_WITHDRAWAL_AMOUNT\<close>, the withdraw button is
  disabled exactly when the available balance is below 1000: a press then does nothing, and
  at a balance of exactly 1000 a press calls \<open>onWithdraw\<close>.
\<close>

theorem withdraw_minimum_inclusive:
  assumes "minWithdrawal w = MIN_WITHDRAWAL_AMOUNT"
  shows "(withdrawDisabled w \<longleftrightarrow> num_lt (availableBalance w) (Fin 1000))
    \<and> (num_lt (availableBalance w) (Fin 1000) \<longrightarrow> pressWithdraw w = [])
    \<and> (availableBalance w = Fin 1000 \<longrightarrow> pressWithdraw w = [ImpactMedium, OnWithdraw])"
  using assms by (simp add: withdrawDisabled_def pressWithdraw_def MIN_WITHDRAWAL_AMOUNT_def)

theorem withdraw_minimum_inclusive_witness:
  "minWithdrawal wallet = MIN_WITHDRAWAL_AMOUNT
   \<and> num_lt (Fin 999) (Fin 1000)
   \<and> pressWithdraw (wallet\<lparr>availableBalance := Fin 999\<rparr>) = []
   \<and> pressWithdraw (wallet\<lparr>availableBalance := Fin 1000\<rparr>) = [ImpactMedium, OnWithdraw]
   \<and> pressWithdraw wallet = [ImpactMedium, OnWithdraw]"
  using withdraw_minimum_inclusive [of "wallet\<lparr>availableBalance := Fin 999\<rparr>"]
    withdraw_minimum_inclusive [of "wallet\<lparr>availableBalance := Fin 1000\<rparr>"]
  by (simp add: wallet_def MIN_WITHDRAWAL_AMOUNT_def pressWithdraw_def withdrawDisabled_def)


section \<open>Releasing a commission\<close>

lemma creditCommission_other: "com_eventId c \<noteq> ev \<Longrightarrow> creditCommission now ev c = c"
  by (simp add: creditCommission_def)

lemma creditCommission_release:
  "com_status c = Com_pending \<Longrightarrow>
   com_status (creditCommission now ev c) = Com_available \<longleftrightarrow>
     com_eventId c = ev
     \<and> num_eq (com_participantsDuesCleared (creditCommission now ev c))
          (com_totalParticipants (creditCommission now ev c))"
  by (auto simp add: creditCommission_def Let_def)

lemma clearDue_noop:
  "find (\<lambda>d. due_id d = dueId) ds = None \<Longrightarrow> clearDue now dueId via (ds, cs) = (ds, cs)"
  "find (\<lambda>d. due_id d = dueId) ds = Some d \<Longrightarrow> due_status d = Due_cleared \<Longrightarrow>
     clearDue now dueId via (ds, cs) = (ds, cs)"
  by (simp_all add: clearDue_def)

lemma clearDue_effective:
  "find (\<lambda>d. due_id d = dueId) ds = Some d \<Longrightarrow> due_status d = Due_pending \<Longrightarrow>
     clearDue now dueId via (ds, cs) =
       (map (markCleared now via dueId) ds, map (creditCommission now (due_eventId d)) cs)"
  by (simp add: clearDue_def)

lemma find_markCleared:
  "find (\<lambda>d. due_id d = dueId) ds = Some d \<Longrightarrow>
   \<exists>d'. find (\<lambda>d. due_id d = dueId) (map (markCleared now via dueId) ds) = Some d'
      \<and> due_status d' = Due_cleared"
  by (induction ds) (auto simp add: markCleared_def split: if_splits)

text \<open>
  C8.  When a due is cleared, a commission record moves from \<open>pending\<close> to
  \<open>available\<close> exactly when the due was pending, belongs to the record's own event, and
  the record's count of cleared dues now equals its number of participants.  A record of
  another event is left as it was.  Clearing a due that is already cleared changes nothing,
  so clearing the same due twice is the same as clearing it once.
\<close>

theorem commission_release_gate:
  "(\<forall>i < length cs.
      (com_status (cs ! i) = Com_pending
        \<and> com_status (snd (clearDue now dueId via (ds, cs)) ! i) = Com_available)
      \<longleftrightarrow>
      (com_status (cs ! i) = Com_pending
        \<and> (\<exists>d. find (\<lambda>d. due_id d = dueId) ds = Some d \<and> due_status d = Due_pending
               \<and> due_eventId d = com_eventId (cs ! i))
        \<and> num_eq (com_participantsDuesCleared (snd (clearDue now dueId via (ds, cs)) ! i))
             (com_totalParticipants (snd (clearDue now dueId via (ds, cs)) ! i))))
   \<and> (\<forall>i < length cs. \<forall>d. find (\<lambda>d. due_id d = dueId) ds = Some d
          \<longrightarrow> due_eventId d \<noteq> com_eventId (cs ! i)
          \<longrightarrow> snd (clearDue now dueId via (ds, cs)) ! i = cs ! i)
   \<and> (\<forall>d. find (\<lambda>d. due_id d = dueId) ds = Some d \<longrightarrow> due_status d = Due_cleared
          \<longrightarrow> clearDue now dueId via (ds, cs) = (ds, cs))
   \<and> clearDue now' dueId via' (clearDue now dueId via (ds, cs)) = clearDue now dueId via (ds, cs)
   \<and> length (snd (clearDue now dueId via (ds, cs))) = length cs"
proof (cases "find (\<lambda>d. due_id d = dueId) ds")
  case None
  then show ?thesis by (simp add: clearDue_noop)
next
  case (Some d)
  show ?thesis
  proof (cases "due_status d")
    case Due_cleared
    with Some show ?thesis by (simp add: clearDue_noop)
  next
    case Due_pending
    note eff = clearDue_effective [OF Some Due_pending]
    from find_markCleared [OF Some] obtain d' where
      d': "find (\<lambda>d. due_id d = dueId) (map (markCleared now via dueId) ds) = Some d'"
        "due_status d' = Due_cleared"
      by blast
    have idem: "clearDue now' dueId via' (clearDue now dueId via (ds, cs))
        = clearDue now dueId via (ds, cs)"
      by (simp add: eff clearDue_noop(2) [OF d'])
    have gate: "\<forall>i < length cs.
      (com_status (cs ! i) = Com_pending
        \<and> com_status (snd (clearDue now dueId via (ds, cs)) ! i) = Com_available)
      \<longleftrightarrow>
      (com_status (cs ! i) = Com_pending
        \<and> (\<exists>d. find (\<lambda>d. due_id d = dueId) ds = Some d \<and> due_status d = Due_pending
               \<and> due_eventId d = com_eventId (cs ! i))
        \<and> num_eq (com_participantsDuesCleared (snd (clearDue now dueId via (ds, cs)) ! i))
             (com_totalParticipants (snd (clearDue now dueId via (ds, cs)) ! i)))"
      using Some Due_pending by (auto simp add: eff creditCommission_release)
    have other: "\<forall>i < length cs. \<forall>d. find (\<lambda>d. due_id d = dueId) ds = Some d
          \<longrightarrow> due_eventId d \<noteq> com_eventId (cs ! i)
          \<longrightarrow> snd (clearDue now dueId via (ds, cs)) ! i = cs ! i"
      using Some by (auto simp add: eff creditCommission_other)
    from gate other idem show ?thesis
      using Some Due_pending by (simp add: eff)
  qed
qed

lemma three_cleared: "round_number 3 = Fin 3"
proof -
  have "rnd 3 = 3" using rnd_exact [OF binary64_int [of 3]] by simp
  then show ?thesis by (rule round_number_eval) simp
qed

lemma trek_cleared:
  "clearDue ''t1'' ''due-3'' Via_payment ([due_third], [com_trek, com_other]) =
     ([due_third\<lparr>due_status := Due_cleared, due_clearedVia := Some Via_payment,
                 due_clearedAt := Some ''t1''\<rparr>],
      [com_trek\<lparr>com_participantsDuesCleared := Fin 3, com_status := Com_available,
                com_availableAt := Some ''t1''\<rparr>,
       com_other])"
  by (simp add: clearDue_def markCleared_def creditCommission_def due_third_def com_trek_def
      com_other_def three_cleared Let_def)

theorem commission_release_gate_witness:
  "find (\<lambda>d. due_id d = ''due-3'') [due_third] = Some due_third
   \<and> due_status due_third = Due_pending
   \<and> due_eventId due_third = com_eventId com_trek
   \<and> due_eventId due_third \<noteq> com_eventId com_other
   \<and> com_status com_trek = Com_pending
   \<and> com_status (snd (clearDue ''t1'' ''due-3'' Via_payment
        ([due_third], [com_trek, com_other])) ! 0) = Com_available
   \<and> snd (clearDue ''t1'' ''due-3'' Via_payment ([due_third], [com_trek, com_other])) ! 1
       = com_other
   \<and> clearDue ''t2'' ''due-3'' Via_commission
        (clearDue ''t1'' ''due-3'' Via_payment ([due_third], [com_trek, com_other]))
       = clearDue ''t1'' ''due-3'' Via_payment ([due_third], [com_trek, com_other])"
proof -
  note gate = commission_release_gate [where cs = "[com_trek, com_other]" and ds = "[due_third]"
      and now = "''t1''" and dueId = "''due-3''" and via = Via_payment and now' = "''t2''"
      and via' = Via_commission]
  have found: "find (\<lambda>d. due_id d = ''due-3'') [due_third] = Some due_third"
    by (simp add: due_third_def)
  have facts: "due_status due_third = Due_pending"
    "due_eventId due_third = com_eventId com_trek"
    "due_eventId due_third \<noteq> com_eventId com_other"
    "com_status com_trek = Com_pending"
    by (simp_all add: due_third_def com_trek_def com_other_def)
  from gate have "\<forall>i < length [com_trek, com_other].
      \<forall>d. find (\<lambda>d. due_id d = ''due-3'') [due_third] = Some d
        \<longrightarrow> due_eventId d \<noteq> com_eventId ([com_trek, com_other] ! i)
        \<longrightarrow> snd (clearDue ''t1'' ''due-3'' Via_payment ([due_third], [com_trek, com_other])) ! i
            = [com_trek, com_other] ! i"
    by blast
  from this [rule_format, of 1 due_third] found facts(3)
  have other: "snd (clearDue ''t1'' ''due-3'' Via_payment ([due_third], [com_trek, com_other])) ! 1
       = com_other"
    by simp
  from gate have idem: "clearDue ''t2'' ''due-3'' Via_commission
        (clearDue ''t1'' ''due-3'' Via_payment ([due_third], [com_trek, com_other]))
       = clearDue ''t1'' ''due-3'' Via_payment ([due_third], [com_trek, com_other])"
    by blast
  have avail: "com_status (snd (clearDue ''t1'' ''due-3'' Via_payment
        ([due_third], [com_trek, com_other])) ! 0) = Com_available"
    by (simp add: trek_cleared)
  from found facts avail other idem show ?thesis by blast
qed


section \<open>The OTP sentinel\<close>

text \<open>
  C9.  \<open>handleVerify\<close> sets the loading flag and starts a timer of 1500 milliseconds.
  When the timer fires, the OTP \<open>000000\<close> sets the error message and does not call
  \<open>onVerify\<close>; every other OTP calls \<open>onVerify\<close> with it and leaves the error as it
  was.  The Verify button hands the six boxes' contents to \<open>handleVerify\<close> when they
  hold six characters and no verification is under way.
\<close>

theorem otp_fails_only_on_sentinel:
  "fst (handleVerify v st) = st\<lparr>otp_isLoading := True\<rparr>
   \<and> timer_delay (snd (handleVerify v st)) = 1500
   \<and> (v = ''000000'' \<longrightarrow>
        fireVerify (snd (handleVerify v st)) st' =
          (st'\<lparr>otp_isLoading := False, otp_error := ''Invalid OTP. Please try again.''\<rparr>,
           [Shake, NotifyError]))
   \<and> (v \<noteq> ''000000'' \<longrightarrow>
        fireVerify (snd (handleVerify v st)) st' =
          (st'\<lparr>otp_isLoading := False\<rparr>, [NotifySuccess, OnVerify v]))
   \<and> ((\<exists>w. OnVerify w \<in> set (snd (fireVerify (snd (handleVerify v st)) st')))
        \<longleftrightarrow> v \<noteq> ''000000'')
   \<and> (length (concat (otp st)) = 6 \<and> \<not> otp_isLoading st \<longrightarrow>
        pressVerify st = Some (handleVerify (concat (otp st)) st))"
  by (simp add: handleVerify_def pressVerify_def verifyDisabled_def OTP_LENGTH_def Let_def)

theorem otp_fails_only_on_sentinel_witness:
  "snd (fireVerify (snd (handleVerify ''000000'' otp_typed)) otp_typed) = [Shake, NotifyError]
   \<and> otp_error (fst (fireVerify (snd (handleVerify ''000000'' otp_typed)) otp_typed))
       = ''Invalid OTP. Please try again.''
   \<and> snd (fireVerify (snd (handleVerify ''123456'' otp_typed)) otp_typed)
       = [NotifySuccess, OnVerify ''123456'']
   \<and> otp_error (fst (fireVerify (snd (handleVerify ''123456'' otp_typed)) otp_typed)) = []
   \<and> length (concat (otp otp_typed)) = 6 \<and> \<not> otp_isLoading otp_typed
   \<and> pressVerify otp_typed = Some (otp_typed\<lparr>otp_isLoading := True\<rparr>, VerifyTimer 1500 ''123456'')"
  using otp_fails_only_on_sentinel [of "''000000''" otp_typed otp_typed]
    otp_fails_only_on_sentinel [of "''123456''" otp_typed otp_typed]
  by (simp add: otp_typed_def handleVerify_def)


section \<open>The finance store: every setter writes its own field\<close>

lemma set_state_no_keys: "set_state no_keys st = st"
  by (simp add: set_state_def no_keys_def)

text \<open>
  C10.  \<open>reset\<close> does not always leave empty arrays.  The store is created holding the
  arrays of \<open>initialState\<close>; when a due is pushed onto the array that the new store's
  \<open>dues\<close> field refers to, \<open>reset\<close> hands the store that same array, which now
  holds the due.
\<close>

theorem finance_store_frame_counterexample:
  "array_push (dues createdState) (E_due due_third) heap_loaded (dues (reset createdState))
     = Some [E_due due_third]
   \<and> \<not> array_push (dues createdState) (E_due due_third) heap_loaded (dues (reset createdState))
       = Some []"
  by (simp add: array_push_def heap_loaded_def createdState_def initialState_def reset_def
      set_state_def all_keys_def)

text \<open>
  C10, amended.  Each setter of the finance store changes its own field and leaves the six
  others as they were, and no setter touches an array.  \<open>reset\<close> gives every field the
  value that \<open>initialState\<close> holds: no summary, not loading, no error, and the four
  arrays of \<open>initialState\<close>.  These four arrays are empty in the heap as it is when the
  module has been loaded; whatever has since been put into one of them in place is still
  there after \<open>reset\<close>.
\<close>

theorem finance_store_frame:
  "setSummary s st = st\<lparr>summary := Some s\<rparr>
   \<and> setTransactions ts st = st\<lparr>transactions := ts\<rparr>
   \<and> setDues ds st = st\<lparr>dues := ds\<rparr>
   \<and> setCommissions cs st = st\<lparr>commissions := cs\<rparr>
   \<and> setWithdrawals ws st = st\<lparr>withdrawals := ws\<rparr>
   \<and> setLoading l st = st\<lparr>isLoading := l\<rparr>
   \<and> setError e st = st\<lparr>error := e\<rparr>
   \<and> reset st = initialState
   \<and> summary (reset st) = None \<and> isLoading (reset st) = False \<and> error (reset st) = None
   \<and> h (transactions (reset st)) = h (transactions initialState)
   \<and> h (dues (reset st)) = h (dues initialState)
   \<and> h (commissions (reset st)) = h (commissions initialState)
   \<and> h (withdrawals (reset st)) = h (withdrawals initialState)
   \<and> heap_loaded (transactions (reset st)) = Some []
   \<and> heap_loaded (dues (reset st)) = Some []
   \<and> heap_loaded (commissions (reset st)) = Some []
   \<and> heap_loaded (withdrawals (reset st)) = Some []"
  by (simp add: setSummary_def setTransactions_def setDues_def setCommissions_def
      setWithdrawals_def setLoading_def setError_def reset_def set_state_def no_keys_def
      all_keys_def initialState_def heap_loaded_def)

end
